theory Spec2Isabelle
  imports Main "HOL-Library.Sublist"
begin

section \<open>Values, errors and strings\<close>

text \<open>
  The engine of \<^verbatim>\<open>index.ts\<close> raises plain \<^verbatim>\<open>Error\<close> objects and lets the errors of
  user hooks and of the schema validator pass through. An error of the engine model is the
  pair of its \<^verbatim>\<open>name\<close> and \<^verbatim>\<open>message\<close>; every \<^verbatim>\<open>throw\<close> of the source is a value
  of a result, never an exception of the model.
\<close>

datatype js_error = JsError (err_name: string) (err_message: string)

definition new_Error :: "string \<Rightarrow> js_error" where
  "new_Error msg = JsError ''Error'' msg"

text \<open>The template literal \<^verbatim>\<open>${e}\<close> of an error: \<^verbatim>\<open>Error.prototype.toString\<close>.\<close>

definition error_toString :: "js_error \<Rightarrow> string" where
  "error_toString e =
     (if err_name e = [] then err_message e
      else if err_message e = [] then err_name e
      else err_name e @ '': '' @ err_message e)"

text \<open>A name between single quotes, as the messages of the source print identifiers.\<close>

definition quoted :: "string \<Rightarrow> string" where
  "quoted s = [CHR 0x27] @ s @ [CHR 0x27]"

text \<open>\<^verbatim>\<open>Array.prototype.join\<close> on an array of strings.\<close>

fun join :: "string \<Rightarrow> string list \<Rightarrow> string" where
  "join sep [] = []"
| "join sep [x] = x"
| "join sep (x # y # ys) = x @ sep @ join sep (y # ys)"

text \<open>
  The values that configs, services and hook results range over. \<open>JProxy w\<close> is the RPC
  proxy of the worker \<open>w\<close>; \<open>truthy\<close> is the test of \<^verbatim>\<open>if (result)\<close>.
\<close>

datatype jsval =
    JUndefined | JNull | JBool bool | JNum int | JStr string | JObj string | JProxy string

fun truthy :: "jsval \<Rightarrow> bool" where
  "truthy JUndefined = False"
| "truthy JNull = False"
| "truthy (JBool b) = b"
| "truthy (JNum n) = (n \<noteq> 0)"
| "truthy (JStr s) = (s \<noteq> [])"
| "truthy (JObj l) = True"
| "truthy (JProxy w) = True"

text \<open>A schema handle is its \<^verbatim>\<open>parse\<close>: the parsed value, or the error it throws.\<close>

type_synonym zod_schema = "jsval \<Rightarrow> js_error + jsval"

section \<open>PluginContext\<close>

type_synonym services = "string \<rightharpoonup> jsval"

text \<open>
  \<^verbatim>\<open>registerService(id, schema, impl, validate = true)\<close>. The result pairs the error thrown
  (if any) with the services map after the call, since the map is a mutable field that
  outlives a throw.
\<close>

definition registerService ::
  "services \<Rightarrow> string \<Rightarrow> zod_schema \<Rightarrow> jsval \<Rightarrow> bool \<Rightarrow> js_error option \<times> services" where
  "registerService svcs sid sch impl validate =
     (if sid \<in> dom svcs then
        (Some (new_Error (''Service '' @ quoted sid @ '' already registered.'')), svcs)
      else if validate then
        (case sch impl of
           Inl e \<Rightarrow>
             (Some (new_Error (''Service '' @ quoted sid @ '' failed contract validation: ''
                                @ error_toString e)), svcs)
         | Inr _ \<Rightarrow> (None, svcs(sid \<mapsto> impl)))
      else (None, svcs(sid \<mapsto> impl)))"

definition getService :: "services \<Rightarrow> string \<Rightarrow> js_error + jsval" where
  "getService svcs sid =
     (case svcs sid of
        None \<Rightarrow> Inl (new_Error (''Service '' @ quoted sid @ '' not found.''))
      | Some v \<Rightarrow> Inr v)"

definition hasService :: "services \<Rightarrow> string \<Rightarrow> bool" where
  "hasService svcs sid = (sid \<in> dom svcs)"

section \<open>Plugin types, instances and the engine\<close>

datatype execution_mode = MainMode | WorkerMode

text \<open>
  \<open>wiring\<close> lists the entries of the wiring object in the order \<^verbatim>\<open>Object.values\<close>
  enumerates them.
\<close>

record plugin_instance =
  inst_id :: string
  typeId :: string
  config :: jsval
  wiring :: "(string \<times> string) list"
  mode :: execution_mode

text \<open>
  \<open>requirements\<close> lists the entries of the requirements object in the order
  \<^verbatim>\<open>Object.keys\<close> enumerates them, \<open>None\<close> when the type declares none. A hook is a
  function of the model: \<open>setup_hook\<close> receives the services map of the context and
  returns what it returned or threw together with the map as it left it;
  \<open>teardown_hook\<close> returns the error it threw, if any.
\<close>

record plugin_type =
  type_id :: string
  schema :: zod_schema
  requirements :: "(string \<times> zod_schema) list option"
  entryPoint :: "string option"
  setup_hook :: "services \<Rightarrow> jsval \<Rightarrow> (string \<times> jsval) list \<Rightarrow> string
                   \<Rightarrow> (js_error + jsval) \<times> services"
  teardown_hook :: "(string \<Rightarrow> js_error option) option"

text \<open>
  A worker handle: \<open>wk_teardown\<close> is what awaiting \<^verbatim>\<open>gracefulTeardown(worker, 5000)\<close> and
  then \<^verbatim>\<open>worker.terminate()\<close> throws, if anything.
\<close>

record worker =
  wk_teardown :: "js_error option"

text \<open>
  The lines the engine writes through \<^verbatim>\<open>this.log\<close>, one constructor per template of the
  source, and the effects of a run in the order they happen.
\<close>

datatype log_line =
    LStarting bool
  | LExecutionOrder "string list"
  | LMermaidHeader
  | LSeparator
  | LMermaidGraph
  | LSystemReady
  | LInitializing string execution_mode
  | LStopping bool
  | LTeardownOrder "string list"
  | LSystemStopped
  | LTerminatingWorker string
  | LTeardownError string js_error

datatype event =
    Log log_line
  | SetupCalled string
  | TeardownCalled string
  | UplinkServerCreated string
  | WorkerSpawned string
  | WorkerTeardown string

text \<open>
  The fields of \<^verbatim>\<open>EazyCore\<close>. \<open>instances\<close> keeps the insertion order of the \<^verbatim>\<open>Map\<close>,
  which its iteration follows; \<open>trace\<close> collects the effects, oldest first.
\<close>

record engine =
  core_context :: services
  pluginTypes :: "string \<rightharpoonup> plugin_type"
  instances :: "(string \<times> plugin_instance) list"
  workers :: "string \<rightharpoonup> worker"
  definitionsLocked :: bool
  trace :: "event list"

definition new_engine :: engine where
  "new_engine = \<lparr>core_context = Map.empty, pluginTypes = Map.empty, instances = [],
                  workers = Map.empty, definitionsLocked = False, trace = []\<rparr>"

definition emit :: "event \<Rightarrow> engine \<Rightarrow> engine" where
  "emit ev eng = eng\<lparr>trace := trace eng @ [ev]\<rparr>"

definition has_instance :: "(string \<times> plugin_instance) list \<Rightarrow> string \<Rightarrow> bool" where
  "has_instance insts k = (k \<in> fst ` set insts)"

definition registerDefinition :: "plugin_type \<Rightarrow> engine \<Rightarrow> js_error option \<times> engine" where
  "registerDefinition def eng =
     (if definitionsLocked eng then
        (Some (new_Error (''Registry is locked. Cannot register new plugin type: ''
                           @ quoted (type_id def))), eng)
      else if type_id def \<in> dom (pluginTypes eng) then
        (Some (new_Error (''Plugin Type '' @ quoted (type_id def) @ '' is already registered.'')),
         eng)
      else (None, eng\<lparr>pluginTypes := (pluginTypes eng)(type_id def \<mapsto> def)\<rparr>))"

definition lockDefinitions :: "engine \<Rightarrow> engine" where
  "lockDefinitions eng = eng\<lparr>definitionsLocked := True\<rparr>"

definition registerPlugin :: "plugin_instance \<Rightarrow> engine \<Rightarrow> js_error option \<times> engine" where
  "registerPlugin plugin eng =
     (if typeId plugin \<notin> dom (pluginTypes eng) then
        (Some (new_Error (''Unknown Plugin Type: '' @ quoted (typeId plugin)
                           @ ''. Did you forget to register the definition?'')), eng)
      else if has_instance (instances eng) (inst_id plugin) then
        (Some (new_Error (''Plugin Instance ID '' @ quoted (inst_id plugin) @ '' is already used.'')),
         eng)
      else (None, eng\<lparr>instances := instances eng @ [(inst_id plugin, plugin)]\<rparr>))"

section \<open>The graph resolver\<close>

text \<open>
  The closure \<^verbatim>\<open>visit\<close> of \<^verbatim>\<open>resolveExecutionOrder\<close> works on three local collections and
  on the array \<^verbatim>\<open>ancestors\<close>, which every call shares and brackets with \<^verbatim>\<open>push\<close> and
  \<^verbatim>\<open>pop\<close>. The four are the state the model threads through; \<open>visit_deps\<close> is the
  \<^verbatim>\<open>for\<close> loop over \<^verbatim>\<open>Object.values(instance.wiring)\<close>.
\<close>

record dfs_state =
  visited :: "string set"
  sorted_ids :: "string list"
  visiting :: "string set"
  ancestors :: "string list"

function visit ::
    "(string \<times> plugin_instance) list \<Rightarrow> string \<Rightarrow> dfs_state \<Rightarrow> js_error + dfs_state"
  and visit_deps ::
    "(string \<times> plugin_instance) list \<Rightarrow> string list \<Rightarrow> dfs_state \<Rightarrow> js_error + dfs_state"
where
  "visit insts nodeId st =
     (if nodeId \<in> visited st then Inr st
      else if nodeId \<in> visiting st then
        Inl (new_Error (''Cyclic dependency: '' @ join '' -> '' (ancestors st)
                         @ '' -> '' @ nodeId))
      else
        let st1 = st\<lparr>visiting := insert nodeId (visiting st),
                     ancestors := ancestors st @ [nodeId]\<rparr> in
        case (case map_of insts nodeId of
                None \<Rightarrow> Inr st1
              | Some inst \<Rightarrow> visit_deps insts (map snd (wiring inst)) st1) of
          Inl e \<Rightarrow> Inl e
        | Inr st2 \<Rightarrow>
            Inr (st2\<lparr>visiting := visiting st2 - {nodeId},
                     ancestors := butlast (ancestors st2),
                     visited := insert nodeId (visited st2),
                     sorted_ids := sorted_ids st2 @ [nodeId]\<rparr>))"
| "visit_deps insts [] st = Inr st"
| "visit_deps insts (depId # rest) st =
     (if has_instance insts depId then
        (case visit insts depId st of
           Inl e \<Rightarrow> Inl e
         | Inr st' \<Rightarrow> visit_deps insts rest st')
      else visit_deps insts rest st)"
  by pat_completeness auto

text \<open>
  A call that returns leaves \<^verbatim>\<open>visiting\<close> as it found it; the termination of the nested
  recursion rests on this.
\<close>

lemma visit_frame_dom:
  "visit_visit_deps_dom (Inl (insts, nodeId, st)) \<Longrightarrow> visit insts nodeId st = Inr st'
     \<Longrightarrow> visiting st' = visiting st"
  "visit_visit_deps_dom (Inr (insts, ds, st)) \<Longrightarrow> visit_deps insts ds st = Inr st''
     \<Longrightarrow> visiting st'' = visiting st"
proof (induction insts nodeId st and insts ds st arbitrary: st' and st''
       rule: visit_visit_deps.pinduct)
  case (1 insts nodeId st)
  show ?case
  proof (cases "nodeId \<in> visited st")
    case True
    with 1(1,3) show ?thesis by (simp add: visit.psimps)
  next
    case nv: False
    show ?thesis
    proof (cases "nodeId \<in> visiting st")
      case True
      with nv 1(1,3) show ?thesis by (simp add: visit.psimps)
    next
      case ng: False
      let ?st1 = "st\<lparr>visiting := insert nodeId (visiting st),
                      ancestors := ancestors st @ [nodeId]\<rparr>"
      show ?thesis
      proof (cases "map_of insts nodeId")
        case None
        with nv ng 1(1,3) show ?thesis by (auto simp: visit.psimps)
      next
        case (Some inst)
        from nv ng Some 1(1,3) obtain st2 where
          r: "visit_deps insts (map snd (wiring inst)) ?st1 = Inr st2"
          and s: "st' = st2\<lparr>visiting := visiting st2 - {nodeId},
                     ancestors := butlast (ancestors st2),
                     visited := insert nodeId (visited st2),
                     sorted_ids := sorted_ids st2 @ [nodeId]\<rparr>"
          by (auto simp: visit.psimps split: sum.splits)
        from 1(2)[OF nv ng refl Some r] have "visiting st2 = insert nodeId (visiting st)"
          by simp
        with s ng show ?thesis by auto
      qed
    qed
  qed
next
  case (2 insts st)
  then show ?case by (simp add: visit_deps.psimps)
next
  case (3 insts depId rest st)
  show ?case
  proof (cases "has_instance insts depId")
    case True
    with 3(1,5) obtain st1 where a: "visit insts depId st = Inr st1"
      and b: "visit_deps insts rest st1 = Inr st''"
      by (auto simp: visit_deps.psimps split: sum.splits)
    from 3(2)[OF True a] 3(3)[OF True a b] show ?thesis by simp
  next
    case False
    with 3(1,5) have "visit_deps insts rest st = Inr st''" by (simp add: visit_deps.psimps)
    from 3(4)[OF False this] show ?thesis .
  qed
qed

definition dfs_measure ::
  "((string \<times> plugin_instance) list \<times> string \<times> dfs_state)
     + ((string \<times> plugin_instance) list \<times> string list \<times> dfs_state) \<Rightarrow> nat \<times> nat" where
  "dfs_measure x =
     (case x of
        Inl (insts, nodeId, st) \<Rightarrow> (card (fst ` set insts - visiting st), 0)
      | Inr (insts, ds, st) \<Rightarrow> (card (fst ` set insts - visiting st), Suc (length ds)))"

lemma card_unvisiting_less:
  assumes "map_of insts nodeId = Some inst" and "nodeId \<notin> visiting st"
  shows "card (fst ` set insts - insert nodeId (visiting st))
           < card (fst ` set insts - visiting st)"
proof -
  from assms(1) have "nodeId \<in> fst ` set insts"
    by (metis map_of_SomeD fst_conv image_eqI)
  with assms(2) have
    "fst ` set insts - insert nodeId (visiting st) \<subset> fst ` set insts - visiting st"
    by auto
  then show ?thesis by (intro psubset_card_mono) auto
qed

termination visit
proof (relation "inv_image (less_than <*lex*> less_than) dfs_measure", goal_cases)
  case 1
  show ?case by (intro wf_inv_image wf_lex_prod wf_less_than)
next
  case (2 insts nodeId st x x2)
  then show ?case
    by (simp add: dfs_measure_def card_unvisiting_less)
next
  case 3
  then show ?case by (simp add: dfs_measure_def)
next
  case (4 insts depId rest st x2)
  then have "visiting x2 = visiting st" by (auto dest: visit_frame_dom(1))
  then show ?case
    by (simp add: dfs_measure_def)
next
  case 5
  then show ?case by (simp add: dfs_measure_def)
qed

text \<open>The loop \<^verbatim>\<open>for (const id of this.instances.keys()) visit(id, [])\<close>.\<close>

fun visit_all ::
  "(string \<times> plugin_instance) list \<Rightarrow> string list \<Rightarrow> dfs_state \<Rightarrow> js_error + dfs_state" where
  "visit_all insts [] st = Inr st"
| "visit_all insts (k # ks) st =
     (case visit insts k (st\<lparr>ancestors := []\<rparr>) of
        Inl e \<Rightarrow> Inl e
      | Inr st' \<Rightarrow> visit_all insts ks st')"

definition dfs_init :: dfs_state where
  "dfs_init = \<lparr>visited = {}, sorted_ids = [], visiting = {}, ancestors = []\<rparr>"

definition resolveExecutionOrder ::
  "(string \<times> plugin_instance) list \<Rightarrow> js_error + string list" where
  "resolveExecutionOrder insts =
     (case visit_all insts (map fst insts) dfs_init of
        Inl e \<Rightarrow> Inl e
      | Inr st \<Rightarrow> Inr (sorted_ids st))"

section \<open>The lifecycle engine\<close>

text \<open>
  Reading a property of \<^verbatim>\<open>undefined\<close> raises a \<^verbatim>\<open>TypeError\<close>; the non-null assertions
  of the source (\<^verbatim>\<open>this.instances.get(id)!\<close>) do not prevent it.
\<close>

definition type_error :: "string \<Rightarrow> js_error" where
  "type_error prop =
     JsError ''TypeError'' (''Cannot read properties of undefined (reading '' @ quoted prop @ '')'')"

text \<open>\<^verbatim>\<open>plugin.wiring[key]\<close> passed through the test \<^verbatim>\<open>!serviceId\<close>: absent or empty is missing.\<close>

definition wired :: "(string \<times> string) list \<Rightarrow> string \<Rightarrow> string option" where
  "wired w key = (case map_of w key of None \<Rightarrow> None | Some s \<Rightarrow> if s = [] then None else Some s)"

text \<open>The loop over \<^verbatim>\<open>Object.keys(type.requirements)\<close> that fills \<^verbatim>\<open>deps\<close>.\<close>

fun resolve_deps ::
  "services \<Rightarrow> string \<Rightarrow> (string \<times> string) list \<Rightarrow> string list \<Rightarrow> (string \<times> jsval) list
     \<Rightarrow> js_error + (string \<times> jsval) list" where
  "resolve_deps svcs pid w [] deps = Inr deps"
| "resolve_deps svcs pid w (key # keys) deps =
     (case wired w key of
        None \<Rightarrow> Inl (new_Error (''Plugin '' @ quoted pid @ '' missing wiring for '' @ quoted key))
      | Some serviceId \<Rightarrow>
          (case getService svcs serviceId of
             Inl e \<Rightarrow> Inl e
           | Inr v \<Rightarrow> resolve_deps svcs pid w keys (deps @ [(key, v)])))"

text \<open>
  The body of the \<^verbatim>\<open>for\<close> loop of \<^verbatim>\<open>start\<close> for one id. \<open>spawn\<close> stands for
  \<^verbatim>\<open>new Worker(...)\<close>: the handle the host gets for the worker of an instance.
\<close>

definition start_instance ::
  "(string \<Rightarrow> worker) \<Rightarrow> string \<Rightarrow> engine \<Rightarrow> js_error option \<times> engine" where
  "start_instance spawn pid eng =
     (case map_of (instances eng) pid of
        None \<Rightarrow> (Some (type_error ''typeId''), eng)
      | Some plugin \<Rightarrow>
          let eng1 = emit (Log (LInitializing pid (mode plugin))) eng in
          (case pluginTypes eng (typeId plugin) of
             None \<Rightarrow> (Some (type_error ''schema''), eng1)
           | Some ty \<Rightarrow>
               (case schema ty (config plugin) of
                  Inl e \<Rightarrow> (Some e, eng1)
                | Inr cfg \<Rightarrow>
                    (case (if mode plugin = MainMode then
                             (case requirements ty of
                                None \<Rightarrow> Inr []
                              | Some reqs \<Rightarrow>
                                  resolve_deps (core_context eng1) pid (wiring plugin)
                                    (map fst reqs) [])
                           else Inr []) of
                       Inl e \<Rightarrow> (Some e, eng1)
                     | Inr deps \<Rightarrow>
                         (case mode plugin of
                            MainMode \<Rightarrow>
                              (case setup_hook ty (core_context eng1) cfg deps pid of
                                 (res, svcs') \<Rightarrow>
                                   let eng2 = (emit (SetupCalled pid) eng1)\<lparr>core_context := svcs'\<rparr> in
                                   (case res of
                                      Inl e \<Rightarrow> (Some e, eng2)
                                    | Inr result \<Rightarrow>
                                        if truthy result \<and> \<not> hasService svcs' pid then
                                          (case registerService svcs' pid (schema ty) result True of
                                             (r, svcs'') \<Rightarrow> (r, eng2\<lparr>core_context := svcs''\<rparr>))
                                        else (None, eng2)))
                          | WorkerMode \<Rightarrow>
                              if entryPoint ty = None \<or> entryPoint ty = Some [] then
                                (Some (new_Error (''Plugin '' @ quoted (type_id ty)
                                                   @ '' missing entryPoint'')), eng1)
                              else
                                let eng2 = (emit (WorkerSpawned pid)
                                             (emit (UplinkServerCreated pid) eng1))
                                           \<lparr>workers := (workers eng1)(pid \<mapsto> spawn pid)\<rparr> in
                                (case registerService (core_context eng2) pid (schema ty)
                                        (JProxy pid) False of
                                   (r, svcs') \<Rightarrow> (r, eng2\<lparr>core_context := svcs'\<rparr>)))))))"

fun start_loop ::
  "(string \<Rightarrow> worker) \<Rightarrow> string list \<Rightarrow> engine \<Rightarrow> js_error option \<times> engine" where
  "start_loop spawn [] eng = (None, eng)"
| "start_loop spawn (pid # rest) eng =
     (case start_instance spawn pid eng of
        (Some e, eng') \<Rightarrow> (Some e, eng')
      | (None, eng') \<Rightarrow> start_loop spawn rest eng')"

text \<open>
  \<^verbatim>\<open>start(options)\<close>. The text of the Mermaid diagram that a dry run prints is not
  modelled; the three lines around it are.
\<close>

definition start :: "bool \<Rightarrow> (string \<Rightarrow> worker) \<Rightarrow> engine \<Rightarrow> js_error option \<times> engine" where
  "start dryRun spawn eng =
     (let eng0 = emit (Log (LStarting dryRun)) eng in
      case resolveExecutionOrder (instances eng) of
        Inl e \<Rightarrow> (Some e, eng0)
      | Inr order \<Rightarrow>
          let eng1 = emit (Log (LExecutionOrder order)) eng0 in
          if dryRun then
            (None, emit (Log LSystemReady) (emit (Log LSeparator) (emit (Log LMermaidGraph)
                     (emit (Log LSeparator) (emit (Log LMermaidHeader) eng1)))))
          else
            (case start_loop spawn order eng1 of
               (Some e, eng2) \<Rightarrow> (Some e, eng2)
             | (None, eng2) \<Rightarrow> (None, emit (Log LSystemReady) eng2)))"

text \<open>The \<^verbatim>\<open>try\<close> block of \<^verbatim>\<open>stop\<close> for one instance: the error it throws, if any.\<close>

definition try_teardown ::
  "string \<Rightarrow> plugin_instance \<Rightarrow> plugin_type option \<Rightarrow> engine \<Rightarrow> js_error option \<times> engine" where
  "try_teardown pid plugin ty eng =
     (if mode plugin = MainMode then
        (case ty of
           None \<Rightarrow> (Some (type_error ''teardown''), eng)
         | Some t \<Rightarrow>
             (case teardown_hook t of
                None \<Rightarrow> (None, eng)
              | Some td \<Rightarrow> (td pid, emit (TeardownCalled pid) eng)))
      else
        (case workers eng pid of
           None \<Rightarrow> (None, eng)
         | Some w \<Rightarrow>
             let eng1 = emit (WorkerTeardown pid) (emit (Log (LTerminatingWorker pid)) eng) in
             (case wk_teardown w of
                Some err \<Rightarrow> (Some err, eng1)
              | None \<Rightarrow> (None, eng1\<lparr>workers := (workers eng1)(pid := None)\<rparr>))))"

definition stop_instance :: "string \<Rightarrow> engine \<Rightarrow> js_error option \<times> engine" where
  "stop_instance pid eng =
     (case map_of (instances eng) pid of
        None \<Rightarrow> (Some (type_error ''typeId''), eng)
      | Some plugin \<Rightarrow>
          (case try_teardown pid plugin (pluginTypes eng (typeId plugin)) eng of
             (None, eng') \<Rightarrow> (None, eng')
           | (Some err, eng') \<Rightarrow> (None, emit (Log (LTeardownError pid err)) eng')))"

fun stop_loop :: "string list \<Rightarrow> engine \<Rightarrow> js_error option \<times> engine" where
  "stop_loop [] eng = (None, eng)"
| "stop_loop (pid # rest) eng =
     (case stop_instance pid eng of
        (Some e, eng') \<Rightarrow> (Some e, eng')
      | (None, eng') \<Rightarrow> stop_loop rest eng')"

definition stop :: "bool \<Rightarrow> engine \<Rightarrow> js_error option \<times> engine" where
  "stop dryRun eng =
     (let eng0 = emit (Log (LStopping dryRun)) eng in
      case resolveExecutionOrder (instances eng) of
        Inl e \<Rightarrow> (Some e, eng0)
      | Inr resolved \<Rightarrow>
          let order = rev resolved in
          if dryRun then
            (None, emit (Log LSystemStopped) (emit (Log (LTeardownOrder order)) eng0))
          else
            (case stop_loop order eng0 of
               (Some e, eng1) \<Rightarrow> (Some e, eng1)
             | (None, eng1) \<Rightarrow> (None, emit (Log LSystemStopped) eng1)))"

text \<open>
  The calls a host program can make on an engine, and a program as a list of them; a call
  that throws leaves the engine as the throw found it, and the program goes on.
\<close>

datatype engine_op =
    OpRegisterDefinition plugin_type
  | OpLockDefinitions
  | OpRegisterPlugin plugin_instance
  | OpRegisterService string zod_schema jsval bool
  | OpStart bool "string \<Rightarrow> worker"
  | OpStop bool

fun apply_op :: "engine_op \<Rightarrow> engine \<Rightarrow> js_error option \<times> engine" where
  "apply_op (OpRegisterDefinition def) eng = registerDefinition def eng"
| "apply_op OpLockDefinitions eng = (None, lockDefinitions eng)"
| "apply_op (OpRegisterPlugin plugin) eng = registerPlugin plugin eng"
| "apply_op (OpRegisterService sid sch impl validate) eng =
     (case registerService (core_context eng) sid sch impl validate of
        (r, svcs') \<Rightarrow> (r, eng\<lparr>core_context := svcs'\<rparr>))"
| "apply_op (OpStart dryRun spawn) eng = start dryRun spawn eng"
| "apply_op (OpStop dryRun) eng = stop dryRun eng"

fun run_ops :: "engine_op list \<Rightarrow> engine \<Rightarrow> engine" where
  "run_ops [] eng = eng"
| "run_ops (op # ops) eng = run_ops ops (snd (apply_op op eng))"

section \<open>RPC and uplink\<close>

text \<open>
  An error object as it crosses a channel is observed by all three of its fields. The stack
  of an \<^verbatim>\<open>Error\<close> is captured where the object is constructed, so the functions that
  construct one take the stack of their call site as the argument \<open>stk\<close>.
\<close>

record error_obj =
  eo_name :: string
  eo_message :: string
  eo_stack :: string

definition new_Error_at :: "string \<Rightarrow> string \<Rightarrow> error_obj" where
  "new_Error_at stk msg = \<lparr>eo_name = ''Error'', eo_message = msg, eo_stack = stk\<rparr>"

text \<open>
  The two helpers at the end of \<^verbatim>\<open>rpc.ts\<close>. Neither is exported and no function of the
  repository calls them.
\<close>

definition serializeError :: "error_obj \<Rightarrow> error_obj" where
  "serializeError err =
     \<lparr>eo_name = eo_name err,
      eo_message = (if eo_message err = [] then ''Unknown Error'' else eo_message err),
      eo_stack = eo_stack err\<rparr>"

definition deserializeError :: "string \<Rightarrow> error_obj \<Rightarrow> error_obj" where
  "deserializeError stk errData =
     (new_Error_at stk (eo_message errData))\<lparr>eo_stack := eo_stack errData,
                                               eo_name := eo_name errData\<rparr>"

text \<open>The frames of \<^verbatim>\<open>RpcMessage\<close> and \<^verbatim>\<open>UplinkMessage\<close>; \<^verbatim>\<open>error\<close> is a string.\<close>

datatype rpc_message =
    CALL string string "jsval list"
  | RESPONSE string jsval
  | ERROR string string
  | TEARDOWN string
  | TEARDOWN_COMPLETE string "string option"
  | WORKER_READY string

datatype uplink_message =
    UPLINK_CALL string string string "jsval list"
  | UPLINK_RESPONSE string jsval
  | UPLINK_ERROR string string

datatype outcome = Resolved jsval | Rejected error_obj

text \<open>A number as the template literal prints it, in decimal.\<close>

definition digit_char :: "nat \<Rightarrow> char" where
  "digit_char n = ''0123456789'' ! (n mod 10)"

fun show_nat :: "nat \<Rightarrow> string" where
  "show_nat n = (if n < 10 then [digit_char n] else show_nat (n div 10) @ [digit_char (n mod 10)])"

declare show_nat.simps [simp del]

definition DEFAULT_RPC_TIMEOUT_MS :: nat where
  "DEFAULT_RPC_TIMEOUT_MS = 10000"

text \<open>
  The state of one client made by \<^verbatim>\<open>createRpcClient(worker, timeoutMs)\<close>. A call is known
  by its correlation id, which \<^verbatim>\<open>nanoid()\<close> mints and the model takes as an argument:
  \<open>rc_pending\<close> holds the keys of the \<^verbatim>\<open>pending\<close> map, \<open>rc_timers\<close> the timers that
  \<^verbatim>\<open>setTimeout\<close> armed and nothing cleared yet (id, deadline, method), in the order they
  were armed, \<open>rc_settled\<close> the promises that have settled, \<open>rc_sent\<close> the frames posted to
  the worker. The clock \<open>rc_now\<close> counts milliseconds.
\<close>

record rpc_client =
  rc_timeoutMs :: nat
  rc_now :: nat
  rc_pending :: "string set"
  rc_timers :: "(string \<times> nat \<times> string) list"
  rc_settled :: "string \<rightharpoonup> outcome"
  rc_sent :: "rpc_message list"

definition createRpcClient :: "nat \<Rightarrow> nat \<Rightarrow> rpc_client" where
  "createRpcClient timeoutMs t0 =
     \<lparr>rc_timeoutMs = timeoutMs, rc_now = t0, rc_pending = {}, rc_timers = [],
      rc_settled = Map.empty, rc_sent = []\<rparr>"

text \<open>A promise settles once: a later \<^verbatim>\<open>resolve\<close> or \<^verbatim>\<open>reject\<close> has no effect.\<close>

definition rc_settle :: "string \<Rightarrow> outcome \<Rightarrow> rpc_client \<Rightarrow> rpc_client" where
  "rc_settle cid out c =
     (if cid \<in> dom (rc_settled c) then c else c\<lparr>rc_settled := (rc_settled c)(cid \<mapsto> out)\<rparr>)"

definition rc_clearTimeout :: "string \<Rightarrow> rpc_client \<Rightarrow> rpc_client" where
  "rc_clearTimeout cid c = c\<lparr>rc_timers := filter (\<lambda>t. fst t \<noteq> cid) (rc_timers c)\<rparr>"

text \<open>The function the proxy returns for the property \<open>prop\<close>, called with \<open>args\<close>.\<close>

definition rpc_call :: "string \<Rightarrow> string \<Rightarrow> jsval list \<Rightarrow> rpc_client \<Rightarrow> rpc_client" where
  "rpc_call cid prop args c =
     c\<lparr>rc_timers := rc_timers c @ [(cid, rc_now c + rc_timeoutMs c, prop)],
       rc_pending := insert cid (rc_pending c),
       rc_sent := rc_sent c @ [CALL cid prop args]\<rparr>"

text \<open>The listener \<^verbatim>\<open>worker.on('message', ...)\<close> of the client.\<close>

fun rpc_on_message :: "string \<Rightarrow> rpc_message \<Rightarrow> rpc_client \<Rightarrow> rpc_client" where
  "rpc_on_message stk (RESPONSE cid result) c =
     (let c1 = (if cid \<in> rc_pending c
                then rc_settle cid (Resolved result) (rc_clearTimeout cid c) else c)
      in c1\<lparr>rc_pending := rc_pending c1 - {cid}\<rparr>)"
| "rpc_on_message stk (ERROR cid err) c =
     (let c1 = (if cid \<in> rc_pending c
                then rc_settle cid (Rejected (new_Error_at stk err)) (rc_clearTimeout cid c)
                else c)
      in c1\<lparr>rc_pending := rc_pending c1 - {cid}\<rparr>)"
| "rpc_on_message stk msg c = c"

text \<open>The callback of the timer of the call \<open>cid\<close> to \<open>prop\<close>.\<close>

definition rpc_timer_fires :: "string \<Rightarrow> string \<times> nat \<times> string \<Rightarrow> rpc_client \<Rightarrow> rpc_client" where
  "rpc_timer_fires stk t c =
     (case t of (cid, deadline, prop) \<Rightarrow>
        rc_settle cid
          (Rejected (new_Error_at stk (''RPC Timeout: Call to '' @ quoted prop @ '' took > ''
                                        @ show_nat (rc_timeoutMs c) @ ''ms'')))
          (c\<lparr>rc_pending := rc_pending c - {cid}\<rparr>))"

text \<open>Time passes: the clock moves on by \<open>dt\<close> and every timer that is due fires.\<close>

definition rpc_advance :: "string \<Rightarrow> nat \<Rightarrow> rpc_client \<Rightarrow> rpc_client" where
  "rpc_advance stk dt c =
     (let now' = rc_now c + dt;
          due = filter (\<lambda>t. fst (snd t) \<le> now') (rc_timers c);
          later = filter (\<lambda>t. \<not> fst (snd t) \<le> now') (rc_timers c)
      in fold (rpc_timer_fires stk) due (c\<lparr>rc_now := now', rc_timers := later\<rparr>))"

datatype rpc_event =
    RpcCall string string "jsval list"
  | RpcMessage string rpc_message
  | RpcAdvance string nat

fun rpc_step :: "rpc_event \<Rightarrow> rpc_client \<Rightarrow> rpc_client" where
  "rpc_step (RpcCall cid prop args) c = rpc_call cid prop args c"
| "rpc_step (RpcMessage stk msg) c = rpc_on_message stk msg c"
| "rpc_step (RpcAdvance stk dt) c = rpc_advance stk dt c"

text \<open>
  The client made by \<^verbatim>\<open>createUplinkClient(port)\<close> has a pending map and no timer: a leaf
  call stores \<^verbatim>\<open>{ resolve, reject }\<close> as they are and posts the frame.
\<close>

record uplink_client =
  up_now :: nat
  up_pending :: "string set"
  up_settled :: "string \<rightharpoonup> outcome"
  up_sent :: "uplink_message list"

definition createUplinkClient :: "nat \<Rightarrow> uplink_client" where
  "createUplinkClient t0 = \<lparr>up_now = t0, up_pending = {}, up_settled = Map.empty, up_sent = []\<rparr>"

definition up_settle :: "string \<Rightarrow> outcome \<Rightarrow> uplink_client \<Rightarrow> uplink_client" where
  "up_settle cid out c =
     (if cid \<in> dom (up_settled c) then c else c\<lparr>up_settled := (up_settled c)(cid \<mapsto> out)\<rparr>)"

definition uplink_call ::
  "string \<Rightarrow> string \<Rightarrow> string \<Rightarrow> jsval list \<Rightarrow> uplink_client \<Rightarrow> uplink_client" where
  "uplink_call cid serviceName method args c =
     c\<lparr>up_pending := insert cid (up_pending c),
       up_sent := up_sent c @ [UPLINK_CALL cid serviceName method args]\<rparr>"

fun uplink_on_message :: "string \<Rightarrow> uplink_message \<Rightarrow> uplink_client \<Rightarrow> uplink_client" where
  "uplink_on_message stk (UPLINK_RESPONSE cid result) c =
     (let c1 = (if cid \<in> up_pending c then up_settle cid (Resolved result) c else c)
      in c1\<lparr>up_pending := up_pending c1 - {cid}\<rparr>)"
| "uplink_on_message stk (UPLINK_ERROR cid err) c =
     (let c1 = (if cid \<in> up_pending c then up_settle cid (Rejected (new_Error_at stk err)) c
                else c)
      in c1\<lparr>up_pending := up_pending c1 - {cid}\<rparr>)"
| "uplink_on_message stk msg c = c"

text \<open>Time passes for the uplink client: no timer exists, so only the clock moves.\<close>

definition uplink_advance :: "nat \<Rightarrow> uplink_client \<Rightarrow> uplink_client" where
  "uplink_advance dt c = c\<lparr>up_now := up_now c + dt\<rparr>"

datatype uplink_event =
    UplinkCall string string string "jsval list"
  | UplinkMessage string uplink_message
  | UplinkAdvance nat

fun uplink_step :: "uplink_event \<Rightarrow> uplink_client \<Rightarrow> uplink_client" where
  "uplink_step (UplinkCall cid serviceName method args) c = uplink_call cid serviceName method args c"
| "uplink_step (UplinkMessage stk msg) c = uplink_on_message stk msg c"
| "uplink_step (UplinkAdvance dt) c = uplink_advance dt c"

text \<open>
  The listener of \<^verbatim>\<open>createRpcServer(service, port)\<close>: the frames it posts for one incoming
  frame. \<open>service method args\<close> is what \<^verbatim>\<open>await service[method](...args)\<close> returns or
  throws.
\<close>

type_synonym service_impl = "string \<Rightarrow> jsval list \<Rightarrow> error_obj + jsval"

fun rpc_server_on_message :: "service_impl \<Rightarrow> rpc_message \<Rightarrow> rpc_message list" where
  "rpc_server_on_message service (CALL cid method args) =
     (case service method args of
        Inr result \<Rightarrow> [RESPONSE cid result]
      | Inl err \<Rightarrow> [ERROR cid (eo_message err)])"
| "rpc_server_on_message service msg = []"

text \<open>
  The listener of \<^verbatim>\<open>createUplinkServer(ctx, wiring, port)\<close>. \<open>invoke v\<close> is the behaviour of
  the service value \<open>v\<close> of the context.
\<close>

fun uplink_server_on_message ::
  "services \<Rightarrow> (string \<times> string) list \<Rightarrow> (jsval \<Rightarrow> service_impl) \<Rightarrow> uplink_message
     \<Rightarrow> uplink_message list" where
  "uplink_server_on_message svcs w invoke (UPLINK_CALL cid serviceName method args) =
     (case wired w serviceName of
        None \<Rightarrow> [UPLINK_ERROR cid (''Wiring missing for '' @ serviceName)]
      | Some serviceId \<Rightarrow>
          (case getService svcs serviceId of
             Inl e \<Rightarrow> [UPLINK_ERROR cid (err_message e)]
           | Inr service \<Rightarrow>
               (case invoke service method args of
                  Inr result \<Rightarrow> [UPLINK_RESPONSE cid result]
                | Inl err \<Rightarrow> [UPLINK_ERROR cid (eo_message err)])))"
| "uplink_server_on_message svcs w invoke msg = []"

section \<open>The worker host\<close>




section \<open>The wiring graph\<close>

text \<open>
  The notions the claims about the resolver are stated in. The intra-graph dependencies of
  a consumer are the targets of its wiring entries that are registered instances; \<open>edges\<close>
  is the relation from a consumer to each of them. \<open>precedes a b xs\<close>: \<open>a\<close> stands
  before the first \<open>b\<close> in \<open>xs\<close>. \<open>is_path\<close>: each element depends on the next.
\<close>

definition deps_of :: "(string \<times> plugin_instance) list \<Rightarrow> string \<Rightarrow> string list" where
  "deps_of insts c =
     (case map_of insts c of
        None \<Rightarrow> []
      | Some inst \<Rightarrow> filter (has_instance insts) (map snd (wiring inst)))"

definition edges :: "(string \<times> plugin_instance) list \<Rightarrow> (string \<times> string) set" where
  "edges insts = {(c, t). t \<in> set (deps_of insts c)}"

definition precedes :: "string \<Rightarrow> string \<Rightarrow> string list \<Rightarrow> bool" where
  "precedes a b xs = (a \<in> set (takeWhile (\<lambda>x. x \<noteq> b) xs) \<and> b \<in> set xs)"

fun is_path :: "(string \<times> plugin_instance) list \<Rightarrow> string list \<Rightarrow> bool" where
  "is_path insts [] = True"
| "is_path insts [x] = True"
| "is_path insts (x # y # ys) = (y \<in> set (deps_of insts x) \<and> is_path insts (y # ys))"

text \<open>
  What the proofs keep track of. \<open>dfs_enter\<close> and \<open>dfs_leave\<close> name the two updates
  of \<open>visit\<close>; \<open>topo_rev\<close> reads an order from its last element: every element has its
  dependencies behind it and occurs once; \<open>dfs_inv\<close> and \<open>path_inv\<close> hold of every
  state the traversal reaches; \<open>cyclic_error\<close> is the shape of the diagnostic.
\<close>

definition dfs_enter :: "string \<Rightarrow> dfs_state \<Rightarrow> dfs_state" where
  "dfs_enter n st = st\<lparr>visiting := insert n (visiting st), ancestors := ancestors st @ [n]\<rparr>"

definition dfs_leave :: "string \<Rightarrow> dfs_state \<Rightarrow> dfs_state" where
  "dfs_leave n st = st\<lparr>visiting := visiting st - {n}, ancestors := butlast (ancestors st),
                        visited := insert n (visited st), sorted_ids := sorted_ids st @ [n]\<rparr>"

fun topo_rev :: "(string \<times> plugin_instance) list \<Rightarrow> string list \<Rightarrow> bool" where
  "topo_rev insts [] = True"
| "topo_rev insts (n # xs) =
     (set (deps_of insts n) \<subseteq> set xs \<and> n \<notin> set xs \<and> topo_rev insts xs)"

definition dfs_inv :: "(string \<times> plugin_instance) list \<Rightarrow> dfs_state \<Rightarrow> bool" where
  "dfs_inv insts st =
     (set (sorted_ids st) = visited st \<and> topo_rev insts (rev (sorted_ids st))
      \<and> visited st \<inter> visiting st = {} \<and> visited st \<subseteq> fst ` set insts)"

definition rank_in :: "string list \<Rightarrow> string \<Rightarrow> nat" where
  "rank_in xs x = length (dropWhile (\<lambda>y. y \<noteq> x) xs)"

definition path_inv :: "(string \<times> plugin_instance) list \<Rightarrow> dfs_state \<Rightarrow> bool" where
  "path_inv insts st =
     (set (ancestors st) = visiting st \<and> is_path insts (ancestors st) \<and> distinct (ancestors st))"

definition cyclic_error :: "(string \<times> plugin_instance) list \<Rightarrow> js_error \<Rightarrow> bool" where
  "cyclic_error insts e =
     (\<exists>pre cyc. cyc \<noteq> [] \<and> distinct (pre @ cyc) \<and> is_path insts (pre @ cyc @ [hd cyc])
        \<and> e = new_Error (''Cyclic dependency: '' @ join '' -> '' (pre @ cyc @ [hd cyc])))"

section \<open>What a run leaves behind\<close>

text \<open>
  \<open>stop_trace eng pid\<close> is what stopping the instance \<open>pid\<close> of the engine \<open>eng\<close>
  adds to the trace: the teardown of a main-mode instance that has one, the termination of
  the worker of a worker-mode instance that has one, each followed by the line that logs the
  error if it threw. \<open>is_teardown\<close> picks the two events that shut something down;
  \<open>no_rollback a b\<close>: from \<open>a\<close> to \<open>b\<close> nothing was shut down and no worker record
  was removed. \<open>same_store\<close>: the type store, the instances and the lock agree.
\<close>

definition same_store :: "engine \<Rightarrow> engine \<Rightarrow> bool" where
  "same_store a b =
     (pluginTypes a = pluginTypes b \<and> instances a = instances b
      \<and> definitionsLocked a = definitionsLocked b)"


fun is_teardown :: "event \<Rightarrow> bool" where
  "is_teardown (TeardownCalled pid) = True"
| "is_teardown (WorkerTeardown pid) = True"
| "is_teardown ev = False"

definition no_rollback :: "engine \<Rightarrow> engine \<Rightarrow> bool" where
  "no_rollback a b =
     (filter is_teardown (trace b) = filter is_teardown (trace a)
      \<and> dom (workers a) \<subseteq> dom (workers b))"


section \<open>Example systems\<close>

text \<open>
  The instance sets the theorems are tried on: a chain with a worker in the middle and a
  wiring entry to a service that is not an instance, a self-wired instance, and a cycle
  that is entered from outside.
\<close>

definition mk_instance ::
  "string \<Rightarrow> string \<Rightarrow> (string \<times> string) list \<Rightarrow> execution_mode \<Rightarrow> plugin_instance" where
  "mk_instance i t w m = \<lparr>inst_id = i, typeId = t, config = JObj ''{}'', wiring = w, mode = m\<rparr>"

definition chain_instances :: "(string \<times> plugin_instance) list" where
  "chain_instances =
     [(''api'', mk_instance ''api'' ''A''
                 [(''logger'', ''sys-logger''), (''db'', ''db''), (''metrics'', ''ext-metrics'')]
                 MainMode),
      (''db'', mk_instance ''db'' ''D'' [(''logger'', ''sys-logger'')] WorkerMode),
      (''sys-logger'', mk_instance ''sys-logger'' ''L'' [] MainMode)]"

definition self_wired :: "(string \<times> plugin_instance) list" where
  "self_wired = [(''X'', mk_instance ''X'' ''T'' [(''req'', ''X'')] MainMode)]"

definition two_cycle :: "(string \<times> plugin_instance) list" where
  "two_cycle = [(''app'', mk_instance ''app'' ''T'' [(''a'', ''X'')] MainMode),
                (''X'', mk_instance ''X'' ''T'' [(''a'', ''Y'')] MainMode),
                (''Y'', mk_instance ''Y'' ''T'' [(''b'', ''X'')] MainMode)]"

text \<open>
  Plugin types and engines over these instances: a logger that returns its service, a
  worker-mode database, an API that both registers a service and returns another one and
  whose teardown throws, and a type whose setup throws.
\<close>

definition ok_schema :: zod_schema where
  "ok_schema v = Inr v"

definition logger_type :: plugin_type where
  "logger_type =
     \<lparr>type_id = ''L'', schema = ok_schema, requirements = None, entryPoint = None,
      setup_hook = (\<lambda>svcs cfg deps pid. (Inr (JObj ''logger''), svcs)),
      teardown_hook = Some (\<lambda>pid. None)\<rparr>"

definition db_type :: plugin_type where
  "db_type =
     \<lparr>type_id = ''D'', schema = ok_schema, requirements = Some [(''logger'', ok_schema)],
      entryPoint = Some ''./db.mjs'',
      setup_hook = (\<lambda>svcs cfg deps pid. (Inr (JObj ''db''), svcs)),
      teardown_hook = None\<rparr>"

definition api_type :: plugin_type where
  "api_type =
     \<lparr>type_id = ''A'', schema = ok_schema,
      requirements = Some [(''logger'', ok_schema), (''db'', ok_schema)], entryPoint = None,
      setup_hook = (\<lambda>svcs cfg deps pid.
         (Inr (JObj ''returned''), snd (registerService svcs pid ok_schema (JObj ''registered'') True))),
      teardown_hook = Some (\<lambda>pid. Some (JsError ''Error'' ''close failed''))\<rparr>"

definition failing_type :: plugin_type where
  "failing_type =
     \<lparr>type_id = ''F'', schema = ok_schema, requirements = Some [(''logger'', ok_schema)],
      entryPoint = None,
      setup_hook = (\<lambda>svcs cfg deps pid. (Inl (JsError ''Error'' ''boom''), svcs)),
      teardown_hook = None\<rparr>"

definition demo_types :: "string \<rightharpoonup> plugin_type" where
  "demo_types = [''L'' \<mapsto> logger_type, ''D'' \<mapsto> db_type, ''A'' \<mapsto> api_type, ''F'' \<mapsto> failing_type]"

definition demo_spawn :: "string \<Rightarrow> worker" where
  "demo_spawn pid = \<lparr>wk_teardown = None\<rparr>"

definition demo_engine :: engine where
  "demo_engine =
     \<lparr>core_context = [''ext-metrics'' \<mapsto> JObj ''metrics''], pluginTypes = demo_types,
      instances = chain_instances, workers = Map.empty, definitionsLocked = False, trace = []\<rparr>"

definition running_engine :: engine where
  "running_engine =
     \<lparr>core_context = [''ext-metrics'' \<mapsto> JObj ''metrics'', ''sys-logger'' \<mapsto> JObj ''logger'',
                       ''db'' \<mapsto> JProxy ''db'', ''api'' \<mapsto> JObj ''registered''],
      pluginTypes = demo_types,
      instances = chain_instances, workers = [''db'' \<mapsto> \<lparr>wk_teardown = None\<rparr>],
      definitionsLocked = False, trace = []\<rparr>"

definition failing_engine :: engine where
  "failing_engine =
     \<lparr>core_context = Map.empty, pluginTypes = demo_types,
      instances = [(''log'', mk_instance ''log'' ''L'' [] MainMode),
                   (''job'', mk_instance ''job'' ''F'' [(''logger'', ''log'')] MainMode)],
      workers = Map.empty, definitionsLocked = False, trace = []\<rparr>"

definition unwired_worker_engine :: engine where
  "unwired_worker_engine =
     \<lparr>core_context = Map.empty, pluginTypes = demo_types,
      instances = [(''db'', mk_instance ''db'' ''D'' [] WorkerMode)],
      workers = Map.empty, definitionsLocked = False, trace = []\<rparr>"

definition ready_engine :: engine where
  "ready_engine =
     \<lparr>core_context = [''sys-logger'' \<mapsto> JObj ''logger'', ''db'' \<mapsto> JProxy ''db''],
      pluginTypes = demo_types, instances = chain_instances,
      workers = [''db'' \<mapsto> \<lparr>wk_teardown = None\<rparr>], definitionsLocked = False, trace = []\<rparr>"

definition unwired_main_engine :: engine where
  "unwired_main_engine =
     \<lparr>core_context = [''ext-logger'' \<mapsto> JObj ''console''], pluginTypes = demo_types,
      instances = [(''app'', mk_instance ''app'' ''A'' [(''logger'', ''ext-logger'')] MainMode)],
      workers = Map.empty, definitionsLocked = False, trace = []\<rparr>"


section \<open>Calls that nobody answers\<close>

text \<open>
  \<open>uplink_answers cid ev\<close> and \<open>rpc_touches cid ev\<close>: the event is a response or an
  error frame for the call \<open>cid\<close> (or, for the downlink client, a second call under the same
  id, which \<^verbatim>\<open>nanoid()\<close> excludes). \<open>timeout_error\<close> is the rejection of the timer;
  \<open>rpc_waiting\<close> and \<open>rpc_timed_out\<close> are the two states of an unanswered call, before
  and after its deadline \<open>d\<close>.
\<close>

fun uplink_answers :: "string \<Rightarrow> uplink_event \<Rightarrow> bool" where
  "uplink_answers cid (UplinkMessage stk (UPLINK_RESPONSE i r)) = (i = cid)"
| "uplink_answers cid (UplinkMessage stk (UPLINK_ERROR i e)) = (i = cid)"
| "uplink_answers cid ev = False"

fun rpc_touches :: "string \<Rightarrow> rpc_event \<Rightarrow> bool" where
  "rpc_touches cid (RpcCall i prop args) = (i = cid)"
| "rpc_touches cid (RpcMessage stk (RESPONSE i r)) = (i = cid)"
| "rpc_touches cid (RpcMessage stk (ERROR i e)) = (i = cid)"
| "rpc_touches cid ev = False"

definition timeout_error :: "string \<Rightarrow> string \<Rightarrow> nat \<Rightarrow> error_obj" where
  "timeout_error stk prop t =
     new_Error_at stk (''RPC Timeout: Call to '' @ quoted prop @ '' took > '' @ show_nat t @ ''ms'')"

definition rpc_waiting :: "rpc_client \<Rightarrow> string \<Rightarrow> string \<Rightarrow> nat \<Rightarrow> bool" where
  "rpc_waiting c cid prop d =
     (cid \<in> rc_pending c \<and> rc_settled c cid = None
      \<and> filter (\<lambda>t. fst t = cid) (rc_timers c) = [(cid, d, prop)] \<and> rc_now c < d)"

definition rpc_timed_out :: "rpc_client \<Rightarrow> string \<Rightarrow> string \<Rightarrow> bool" where
  "rpc_timed_out c cid prop =
     (cid \<notin> rc_pending c
      \<and> (\<exists>stk. rc_settled c cid = Some (Rejected (timeout_error stk prop (rc_timeoutMs c))))
      \<and> filter (\<lambda>t. fst t = cid) (rc_timers c) = [])"


text \<open>A service whose every method throws a \<^verbatim>\<open>TypeError\<close>.\<close>

definition worker_error :: error_obj where
  "worker_error = \<lparr>eo_name = ''TypeError'', eo_message = ''boom'',
                    eo_stack = ''TypeError: boom at query (worker)''\<rparr>"

definition throwing_service :: service_impl where
  "throwing_service m args = Inl worker_error"


section \<open>Properties of the resolver\<close>

declare visit.simps [simp del]

lemma dfs_enter_simps [simp]:
  "visited (dfs_enter n st) = visited st"
  "sorted_ids (dfs_enter n st) = sorted_ids st"
  "visiting (dfs_enter n st) = insert n (visiting st)"
  "ancestors (dfs_enter n st) = ancestors st @ [n]"
  by (simp_all add: dfs_enter_def)

lemma dfs_leave_simps [simp]:
  "visited (dfs_leave n st) = insert n (visited st)"
  "sorted_ids (dfs_leave n st) = sorted_ids st @ [n]"
  "visiting (dfs_leave n st) = visiting st - {n}"
  "ancestors (dfs_leave n st) = butlast (ancestors st)"
  by (simp_all add: dfs_leave_def)

lemma visit_unfold:
  "visit insts n st =
     (if n \<in> visited st then Inr st
      else if n \<in> visiting st then
        Inl (new_Error (''Cyclic dependency: '' @ join '' -> '' (ancestors st) @ '' -> '' @ n))
      else
        case (case map_of insts n of
                None \<Rightarrow> Inr (dfs_enter n st)
              | Some inst \<Rightarrow> visit_deps insts (map snd (wiring inst)) (dfs_enter n st)) of
          Inl e \<Rightarrow> Inl e
        | Inr st2 \<Rightarrow> Inr (dfs_leave n st2))"
  by (auto simp: visit.simps dfs_enter_def dfs_leave_def Let_def split: option.splits sum.splits)

lemma visit_frame:
  "visit insts n st = Inr st' \<Longrightarrow> visiting st' = visiting st \<and> ancestors st' = ancestors st"
  "visit_deps insts ds st = Inr st'' \<Longrightarrow> visiting st'' = visiting st \<and> ancestors st'' = ancestors st"
proof (induction insts n st and insts ds st arbitrary: st' and st'' rule: visit_visit_deps.induct)
  case (1 insts n st)
  show ?case
  proof (cases "n \<in> visited st \<or> n \<in> visiting st")
    case True
    with 1(2) show ?thesis by (auto simp: visit_unfold split: if_splits)
  next
    case False
    then have nv: "n \<notin> visited st" and ng: "n \<notin> visiting st" by auto
    show ?thesis
    proof (cases "map_of insts n")
      case None
      with nv ng 1(2) show ?thesis by (auto simp: visit_unfold)
    next
      case (Some inst)
      with nv ng 1(2) obtain st2 where
        r: "visit_deps insts (map snd (wiring inst)) (dfs_enter n st) = Inr st2"
        and s: "st' = dfs_leave n st2"
        by (auto simp: visit_unfold split: sum.splits)
      from r have "visit_deps insts (map snd (wiring inst))
          (st\<lparr>visiting := insert n (visiting st), ancestors := ancestors st @ [n]\<rparr>) = Inr st2"
        by (simp add: dfs_enter_def)
      from 1(1)[OF nv ng refl Some this]
      have "visiting st2 = insert n (visiting st)" "ancestors st2 = ancestors st @ [n]" by simp_all
      with s ng show ?thesis by auto
    qed
  qed
next
  case (2 insts st)
  then show ?case by simp
next
  case (3 insts depId rest st)
  show ?case
  proof (cases "has_instance insts depId")
    case True
    with 3(4) obtain st1 where a: "visit insts depId st = Inr st1"
      and b: "visit_deps insts rest st1 = Inr st''"
      by (auto split: sum.splits)
    from 3(1)[OF True a] 3(2)[OF True a b] show ?thesis by simp
  next
    case False
    with 3(4) have "visit_deps insts rest st = Inr st''" by simp
    from 3(3)[OF False this] show ?thesis .
  qed
qed

lemma has_instance_map_of: "has_instance insts n \<Longrightarrow> \<exists>inst. map_of insts n = Some inst"
  by (cases "map_of insts n") (auto simp: has_instance_def map_of_eq_None_iff)

lemma visit_inv:
  "dfs_inv insts st \<Longrightarrow> has_instance insts n \<Longrightarrow> visit insts n st = Inr st'
     \<Longrightarrow> dfs_inv insts st' \<and> n \<in> visited st' \<and> visited st \<subseteq> visited st'"
  "dfs_inv insts st \<Longrightarrow> visit_deps insts ds st = Inr st''
     \<Longrightarrow> dfs_inv insts st'' \<and> (\<forall>d\<in>set ds. has_instance insts d \<longrightarrow> d \<in> visited st'')
         \<and> visited st \<subseteq> visited st''"
proof (induction insts n st and insts ds st arbitrary: st' and st'' rule: visit_visit_deps.induct)
  case (1 insts n st)
  show ?case
  proof (cases "n \<in> visited st")
    case True
    with 1(2,4) show ?thesis by (auto simp: visit_unfold)
  next
    case nv: False
    with 1(4) have ng: "n \<notin> visiting st" by (auto simp: visit_unfold split: if_splits)
    from 1(3) obtain inst where Some: "map_of insts n = Some inst"
      using has_instance_map_of by blast
    with nv ng 1(4) obtain st2 where
      r: "visit_deps insts (map snd (wiring inst)) (dfs_enter n st) = Inr st2"
      and s: "st' = dfs_leave n st2"
      by (auto simp: visit_unfold split: sum.splits)
    have e: "dfs_enter n st = st\<lparr>visiting := insert n (visiting st), ancestors := ancestors st @ [n]\<rparr>"
      by (simp add: dfs_enter_def)
    have inv1: "dfs_inv insts (dfs_enter n st)"
      using 1(2) nv by (auto simp: dfs_inv_def)
    from 1(1)[OF nv ng refl Some, folded e, OF inv1 r]
    have inv2: "dfs_inv insts st2"
      and dv: "\<forall>d\<in>set (map snd (wiring inst)). has_instance insts d \<longrightarrow> d \<in> visited st2"
      and mono: "visited st \<subseteq> visited st2" by auto
    from visit_frame(2)[OF r] have vg: "visiting st2 = insert n (visiting st)" by simp
    with inv2 have n2: "n \<notin> visited st2" by (auto simp: dfs_inv_def)
    have deps: "set (deps_of insts n) \<subseteq> visited st2"
      using dv Some by (auto simp: deps_of_def)
    have "dfs_inv insts st'"
      using inv2 n2 deps 1(3) unfolding s dfs_inv_def
      by (auto simp: has_instance_def)
    with s mono show ?thesis by auto
  qed
next
  case (2 insts st)
  then show ?case by simp
next
  case (3 insts depId rest st)
  show ?case
  proof (cases "has_instance insts depId")
    case True
    with 3(5) obtain st1 where a: "visit insts depId st = Inr st1"
      and b: "visit_deps insts rest st1 = Inr st''"
      by (auto split: sum.splits)
    from 3(1)[OF True 3(4) True a] have i1: "dfs_inv insts st1" "depId \<in> visited st1"
      "visited st \<subseteq> visited st1" by auto
    from 3(2)[OF True a i1(1) b] i1 show ?thesis by auto
  next
    case False
    with 3(5) have "visit_deps insts rest st = Inr st''" by simp
    from 3(3)[OF False 3(4) this] False show ?thesis by auto
  qed
qed

lemma visit_all_inv:
  "dfs_inv insts st \<Longrightarrow> visiting st = {} \<Longrightarrow> set ks \<subseteq> fst ` set insts
     \<Longrightarrow> visit_all insts ks st = Inr st'
     \<Longrightarrow> dfs_inv insts st' \<and> set ks \<union> visited st \<subseteq> visited st' \<and> visiting st' = {}"
proof (induction ks arbitrary: st)
  case Nil
  then show ?case by simp
next
  case (Cons k ks)
  from Cons.prems(4) obtain st1 where a: "visit insts k (st\<lparr>ancestors := []\<rparr>) = Inr st1"
    and b: "visit_all insts ks st1 = Inr st'"
    by (auto split: sum.splits)
  have i0: "dfs_inv insts (st\<lparr>ancestors := []\<rparr>)" using Cons.prems(1) by (simp add: dfs_inv_def)
  have hk: "has_instance insts k" using Cons.prems(3) by (simp add: has_instance_def)
  from visit_inv(1)[OF i0 hk a] have i1: "dfs_inv insts st1" "k \<in> visited st1"
    "visited st \<subseteq> visited st1" by auto
  from visit_frame(1)[OF a] Cons.prems(2) have g1: "visiting st1 = {}" by simp
  from Cons.IH[OF i1(1) g1 _ b] Cons.prems(3) i1 show ?case by auto
qed

lemma dfs_inv_init: "dfs_inv insts dfs_init"
  by (simp add: dfs_inv_def dfs_init_def)

lemma resolve_success:
  assumes "resolveExecutionOrder insts = Inr order"
  shows "set order = fst ` set insts \<and> topo_rev insts (rev order)"
proof -
  from assms obtain st where v: "visit_all insts (map fst insts) dfs_init = Inr st"
    and o: "order = sorted_ids st"
    by (auto simp: resolveExecutionOrder_def split: sum.splits)
  have "visiting dfs_init = {}" by (simp add: dfs_init_def)
  from visit_all_inv[OF dfs_inv_init this _ v]
  have "dfs_inv insts st" "fst ` set insts \<subseteq> visited st" by auto
  with o show ?thesis by (auto simp: dfs_inv_def)
qed

lemma topo_rev_distinct: "topo_rev insts xs \<Longrightarrow> distinct xs"
  by (induction xs) auto

lemma edges_iff:
  "(c, t) \<in> edges insts \<longleftrightarrow>
     (\<exists>inst. map_of insts c = Some inst \<and> t \<in> snd ` set (wiring inst) \<and> has_instance insts t)"
  by (cases "map_of insts c") (auto simp: edges_def deps_of_def intro: rev_image_eqI)

lemma visit_no_cycle:
  "acyclic (edges insts) \<Longrightarrow> \<forall>a\<in>visiting st. (a, n) \<in> (edges insts)\<^sup>+
     \<Longrightarrow> \<exists>st'. visit insts n st = Inr st'"
  "acyclic (edges insts) \<Longrightarrow> \<forall>d\<in>set ds. has_instance insts d \<longrightarrow> (n0, d) \<in> edges insts
     \<Longrightarrow> \<forall>a\<in>visiting st. (a, n0) \<in> (edges insts)\<^sup>*
     \<Longrightarrow> \<exists>st'. visit_deps insts ds st = Inr st'"
proof (induction insts n st and insts ds st arbitrary: and n0 rule: visit_visit_deps.induct)
  case (1 insts n st)
  show ?case
  proof (cases "n \<in> visited st")
    case True
    then show ?thesis by (simp add: visit_unfold)
  next
    case nv: False
    have ng: "n \<notin> visiting st"
    proof
      assume "n \<in> visiting st"
      with 1(3) have "(n, n) \<in> (edges insts)\<^sup>+" by blast
      with 1(2) show False by (simp add: acyclic_def)
    qed
    show ?thesis
    proof (cases "map_of insts n")
      case None
      with nv ng show ?thesis by (simp add: visit_unfold)
    next
      case (Some inst)
      have e: "dfs_enter n st = st\<lparr>visiting := insert n (visiting st), ancestors := ancestors st @ [n]\<rparr>"
        by (simp add: dfs_enter_def)
      have p1: "\<forall>d\<in>set (map snd (wiring inst)). has_instance insts d \<longrightarrow> (n, d) \<in> edges insts"
        using Some by (auto simp: edges_iff)
      have p2: "\<forall>a\<in>visiting (dfs_enter n st). (a, n) \<in> (edges insts)\<^sup>*"
        using 1(3) by auto
      from 1(1)[OF nv ng refl Some, folded e, OF 1(2) p1 p2]
      obtain st2 where "visit_deps insts (map snd (wiring inst)) (dfs_enter n st) = Inr st2" by blast
      with nv ng Some show ?thesis by (simp add: visit_unfold)
    qed
  qed
next
  case (2 insts st)
  then show ?case by simp
next
  case (3 insts depId rest st)
  show ?case
  proof (cases "has_instance insts depId")
    case True
    with 3(5) have ed: "(n0, depId) \<in> edges insts" by simp
    have "\<forall>a\<in>visiting st. (a, depId) \<in> (edges insts)\<^sup>+"
      using 3(6) ed by (auto intro: rtrancl_into_trancl1)
    from 3(1)[OF True 3(4) this] obtain st1 where a: "visit insts depId st = Inr st1" by blast
    from visit_frame(1)[OF a] have g: "visiting st1 = visiting st" by simp
    have r: "\<forall>d\<in>set rest. has_instance insts d \<longrightarrow> (n0, d) \<in> edges insts" using 3(5) by simp
    from 3(2)[OF True a 3(4) r] 3(6) g obtain st2 where "visit_deps insts rest st1 = Inr st2"
      by auto
    with True a show ?thesis by simp
  next
    case False
    have r: "\<forall>d\<in>set rest. has_instance insts d \<longrightarrow> (n0, d) \<in> edges insts" using 3(5) by simp
    from 3(3)[OF False 3(4) r 3(6)] False show ?thesis by simp
  qed
qed

lemma visit_all_no_cycle:
  "acyclic (edges insts) \<Longrightarrow> visiting st = {} \<Longrightarrow> \<exists>st'. visit_all insts ks st = Inr st'"
proof (induction ks arbitrary: st)
  case Nil
  then show ?case by simp
next
  case (Cons k ks)
  have "\<forall>a\<in>visiting (st\<lparr>ancestors := []\<rparr>). (a, k) \<in> (edges insts)\<^sup>+" using Cons.prems(2) by simp
  from visit_no_cycle(1)[OF Cons.prems(1) this]
  obtain st1 where a: "visit insts k (st\<lparr>ancestors := []\<rparr>) = Inr st1" by blast
  from visit_frame(1)[OF a] Cons.prems(2) have "visiting st1 = {}" by simp
  from Cons.IH[OF Cons.prems(1) this] a show ?case by simp
qed

lemma resolve_acyclic_returns:
  "acyclic (edges insts) \<Longrightarrow> \<exists>order. resolveExecutionOrder insts = Inr order"
  using visit_all_no_cycle[of insts dfs_init "map fst insts"]
  by (auto simp: resolveExecutionOrder_def dfs_init_def)

lemma topo_rev_precedes:
  "topo_rev insts (rev xs) \<Longrightarrow> c \<in> set xs \<Longrightarrow> t \<in> set (deps_of insts c) \<Longrightarrow> precedes t c xs"
proof (induction xs rule: rev_induct)
  case Nil
  then show ?case by simp
next
  case (snoc n xs)
  from snoc.prems(1) have d: "set (deps_of insts n) \<subseteq> set xs" and nn: "n \<notin> set xs"
    and tr: "topo_rev insts (rev xs)" by auto
  show ?case
  proof (cases "c = n")
    case True
    from nn have "takeWhile (\<lambda>x. x \<noteq> n) xs = xs" by (intro takeWhile_eq_all_conv[THEN iffD2]) auto
    with nn True have "takeWhile (\<lambda>x. x \<noteq> c) (xs @ [n]) = xs"
      by simp
    with True d snoc.prems(3) show ?thesis by (auto simp: precedes_def)
  next
    case False
    with snoc.prems(2) have c: "c \<in> set xs" by simp
    from snoc.IH[OF tr c snoc.prems(3)] have "precedes t c xs" .
    with c show ?thesis by (auto simp: precedes_def)
  qed
qed

lemma topo_rev_rank:
  "topo_rev insts xs \<Longrightarrow> c \<in> set xs \<Longrightarrow> t \<in> set (deps_of insts c)
     \<Longrightarrow> t \<in> set xs \<and> rank_in xs t < rank_in xs c"
proof (induction xs)
  case Nil
  then show ?case by simp
next
  case (Cons n xs)
  from Cons.prems(1) have d: "set (deps_of insts n) \<subseteq> set xs" and nn: "n \<notin> set xs"
    and tr: "topo_rev insts xs" by auto
  have le: "\<And>y. rank_in xs y \<le> length xs"
    by (simp add: rank_in_def length_dropWhile_le)
  show ?case
  proof (cases "c = n")
    case True
    with d Cons.prems(3) have t: "t \<in> set xs" by auto
    with nn have "t \<noteq> n" by auto
    then have "rank_in (n # xs) t = rank_in xs t" by (simp add: rank_in_def)
    moreover have "rank_in (n # xs) c = Suc (length xs)" using True by (simp add: rank_in_def)
    ultimately show ?thesis using t le[of t] by simp
  next
    case False
    with Cons.prems(2) have c: "c \<in> set xs" by simp
    from Cons.IH[OF tr c Cons.prems(3)] have t: "t \<in> set xs" and r: "rank_in xs t < rank_in xs c"
      by auto
    from t nn have "t \<noteq> n" by auto
    with False r t show ?thesis by (simp add: rank_in_def)
  qed
qed

lemma edge_source_registered: "(c, t) \<in> edges insts \<Longrightarrow> c \<in> fst ` set insts"
  by (auto simp: edges_iff dest!: map_of_SomeD intro: rev_image_eqI)

lemma acyclic_by_rank:
  fixes f :: "'a \<Rightarrow> nat"
  assumes "\<And>c t. (c, t) \<in> r \<Longrightarrow> f t < f c"
  shows "acyclic r"
proof -
  have "r\<inverse> \<subseteq> measure f" using assms by auto
  then have "wf (r\<inverse>)" by (rule wf_subset[OF wf_measure])
  then have "acyclic (r\<inverse>)" by (rule wf_acyclic)
  then show ?thesis by simp
qed

lemma topo_acyclic:
  assumes "topo_rev insts xs" and "set xs = fst ` set insts"
  shows "acyclic (edges insts)"
proof (rule acyclic_by_rank)
  fix c t assume e: "(c, t) \<in> edges insts"
  then have "c \<in> set xs" using assms(2) edge_source_registered by blast
  moreover from e have "t \<in> set (deps_of insts c)" by (simp add: edges_def)
  ultimately show "rank_in xs t < rank_in xs c" using topo_rev_rank[OF assms(1)] by blast
qed

lemma resolve_returns_iff_acyclic:
  "(\<exists>order. resolveExecutionOrder insts = Inr order) \<longleftrightarrow> acyclic (edges insts)"
proof
  assume "\<exists>order. resolveExecutionOrder insts = Inr order"
  then obtain order where o: "resolveExecutionOrder insts = Inr order" by blast
  from resolve_success[OF o] have "topo_rev insts (rev order)" "set (rev order) = fst ` set insts"
    by auto
  then show "acyclic (edges insts)" by (rule topo_acyclic)
next
  assume "acyclic (edges insts)"
  then show "\<exists>order. resolveExecutionOrder insts = Inr order" by (rule resolve_acyclic_returns)
qed

lemma is_path_snoc:
  "is_path insts (xs @ [n]) \<longleftrightarrow> is_path insts xs \<and> (xs = [] \<or> n \<in> set (deps_of insts (last xs)))"
  by (induction insts xs rule: is_path.induct) auto

lemma is_path_drop: "is_path insts (xs @ ys) \<Longrightarrow> is_path insts ys"
proof (induction insts xs rule: is_path.induct)
  case (1 insts)
  then show ?case by simp
next
  case (2 insts x)
  then show ?case by (cases ys) auto
next
  case (3 insts x y ys)
  then show ?case by simp
qed

lemma join_snoc: "xs \<noteq> [] \<Longrightarrow> join sep (xs @ [x]) = join sep xs @ sep @ x"
  by (induction sep xs rule: join.induct) auto

lemma join_append:
  "xs \<noteq> [] \<Longrightarrow> ys \<noteq> [] \<Longrightarrow> join sep (xs @ ys) = join sep xs @ sep @ join sep ys"
proof (induction sep xs rule: join.induct)
  case (1 sep)
  then show ?case by simp
next
  case (2 sep x)
  then show ?case by (cases ys) auto
next
  case (3 sep x y ys)
  then show ?case by simp
qed

lemma visit_error_shape:
  "path_inv insts st \<Longrightarrow> ancestors st = [] \<or> n \<in> set (deps_of insts (last (ancestors st)))
     \<Longrightarrow> visit insts n st = Inl e \<Longrightarrow> cyclic_error insts e"
  "path_inv insts st \<Longrightarrow> ancestors st \<noteq> []
     \<Longrightarrow> \<forall>d\<in>set ds. has_instance insts d \<longrightarrow> d \<in> set (deps_of insts (last (ancestors st)))
     \<Longrightarrow> visit_deps insts ds st = Inl e' \<Longrightarrow> cyclic_error insts e'"
proof (induction insts n st and insts ds st arbitrary: e and e' rule: visit_visit_deps.induct)
  case (1 insts n st)
  from 1(4) have nv: "n \<notin> visited st" by (auto simp: visit_unfold split: if_splits)
  show ?case
  proof (cases "n \<in> visiting st")
    case True
    with nv 1(4) have e: "e = new_Error (''Cyclic dependency: '' @ join '' -> '' (ancestors st)
                         @ '' -> '' @ n)" by (simp add: visit_unfold)
    from True 1(2) have mem: "n \<in> set (ancestors st)" by (simp add: path_inv_def)
    then obtain pre rest where sp: "ancestors st = pre @ n # rest" by (meson split_list)
    have ne: "ancestors st \<noteq> []" using mem by auto
    with 1(2,3) have "is_path insts (ancestors st @ [n])"
      by (auto simp: is_path_snoc path_inv_def)
    then have p: "is_path insts (pre @ (n # rest) @ [hd (n # rest)])" using sp by simp
    have d: "distinct (pre @ (n # rest))" using 1(2) sp by (simp add: path_inv_def)
    have "e = new_Error (''Cyclic dependency: '' @ join '' -> '' (pre @ (n # rest) @ [hd (n # rest)]))"
      using e sp join_snoc[OF ne, of "'' -> ''" n] by simp
    with p d show ?thesis unfolding cyclic_error_def by blast
  next
    case ng: False
    show ?thesis
    proof (cases "map_of insts n")
      case None
      with nv ng 1(4) show ?thesis by (simp add: visit_unfold)
    next
      case (Some inst)
      with nv ng 1(4) have r: "visit_deps insts (map snd (wiring inst)) (dfs_enter n st) = Inl e"
        by (auto simp: visit_unfold split: sum.splits)
      have en: "dfs_enter n st = st\<lparr>visiting := insert n (visiting st), ancestors := ancestors st @ [n]\<rparr>"
        by (simp add: dfs_enter_def)
      have pi: "path_inv insts (dfs_enter n st)"
        using 1(2,3) ng by (auto simp: path_inv_def is_path_snoc)
      have a: "ancestors (dfs_enter n st) \<noteq> []" by simp
      have b: "\<forall>d\<in>set (map snd (wiring inst)). has_instance insts d \<longrightarrow>
                 d \<in> set (deps_of insts (last (ancestors (dfs_enter n st))))"
        using Some by (auto simp: deps_of_def)
      from 1(1)[OF nv ng refl Some, folded en, OF pi a b r] show ?thesis .
    qed
  qed
next
  case (2 insts st)
  then show ?case by simp
next
  case (3 insts depId rest st)
  show ?case
  proof (cases "has_instance insts depId")
    case True
    show ?thesis
    proof (cases "visit insts depId st")
      case (Inl e1)
      with True 3(7) have "e1 = e'" by simp
      with Inl 3(1)[OF True 3(4) _ ] 3(6) True show ?thesis by auto
    next
      case (Inr st1)
      with True 3(7) have r: "visit_deps insts rest st1 = Inl e'" by simp
      from visit_frame(1)[OF Inr] have f: "visiting st1 = visiting st" "ancestors st1 = ancestors st"
        by auto
      have pi: "path_inv insts st1" using 3(4) f by (simp add: path_inv_def)
      from 3(2)[OF True Inr pi _ _ r] 3(5,6) f show ?thesis by auto
    qed
  next
    case False
    with 3(7) have "visit_deps insts rest st = Inl e'" by simp
    from 3(3)[OF False 3(4) 3(5) _ this] 3(6) show ?thesis by auto
  qed
qed

lemma visit_all_error_shape:
  "visiting st = {} \<Longrightarrow> visit_all insts ks st = Inl e \<Longrightarrow> cyclic_error insts e"
proof (induction ks arbitrary: st)
  case Nil
  then show ?case by simp
next
  case (Cons k ks)
  show ?case
  proof (cases "visit insts k (st\<lparr>ancestors := []\<rparr>)")
    case (Inl e1)
    with Cons.prems(2) have "e1 = e" by simp
    moreover have "path_inv insts (st\<lparr>ancestors := []\<rparr>)" using Cons.prems(1)
      by (simp add: path_inv_def)
    ultimately show ?thesis using visit_error_shape(1)[of insts "st\<lparr>ancestors := []\<rparr>" k e] Inl
      by simp
  next
    case (Inr st1)
    with Cons.prems(2) have r: "visit_all insts ks st1 = Inl e" by simp
    from visit_frame(1)[OF Inr] Cons.prems(1) have "visiting st1 = {}" by simp
    from Cons.IH[OF this r] show ?thesis .
  qed
qed

lemma resolve_error_shape:
  "resolveExecutionOrder insts = Inl e \<Longrightarrow> cyclic_error insts e"
  using visit_all_error_shape[of dfs_init insts "map fst insts" e]
  by (auto simp: resolveExecutionOrder_def dfs_init_def split: sum.splits)

section \<open>The resolved order\<close>

text \<open>
  Claim C1. If the wiring among the registered instances is acyclic, then
  \<^verbatim>\<open>resolveExecutionOrder\<close> returns, and what it returns lists exactly the registered ids,
  each once; for every wiring entry of a registered consumer, a target that is a registered
  instance stands before the consumer, and a target that is not registered does not occur
  in the order.
\<close>

theorem resolveExecutionOrder_topological:
  assumes "acyclic (edges insts)"
  shows "\<exists>order. resolveExecutionOrder insts = Inr order
           \<and> set order = fst ` set insts \<and> distinct order
           \<and> (\<forall>c inst r t. map_of insts c = Some inst \<and> (r, t) \<in> set (wiring inst) \<longrightarrow>
                 (if has_instance insts t then precedes t c order else t \<notin> set order))"
proof -
  from resolve_acyclic_returns[OF assms] obtain order where
    o: "resolveExecutionOrder insts = Inr order" by blast
  from resolve_success[OF o] have s: "set order = fst ` set insts"
    and t: "topo_rev insts (rev order)" by auto
  from topo_rev_distinct[OF t] have d: "distinct order" by simp
  have "\<forall>c inst r t. map_of insts c = Some inst \<and> (r, t) \<in> set (wiring inst) \<longrightarrow>
          (if has_instance insts t then precedes t c order else t \<notin> set order)"
  proof (intro allI impI)
    fix c inst r tg
    assume a: "map_of insts c = Some inst \<and> (r, tg) \<in> set (wiring inst)"
    show "if has_instance insts tg then precedes tg c order else tg \<notin> set order"
    proof (cases "has_instance insts tg")
      case True
      from a have "c \<in> set order" unfolding s
        by (metis map_of_SomeD fst_conv image_eqI)
      moreover from a True have "tg \<in> set (deps_of insts c)"
        by (auto simp: deps_of_def intro: rev_image_eqI)
      ultimately show ?thesis using topo_rev_precedes[OF t] True by simp
    next
      case False
      then show ?thesis using s by (simp add: has_instance_def)
    qed
  qed
  with o s d show ?thesis by blast
qed

lemma chain_acyclic: "acyclic (edges chain_instances)"
  by (rule acyclic_by_rank
        [where f = "\<lambda>x. if x = ''api'' then 2 else if x = ''db'' then 1 else 0"])
     (auto simp: edges_iff chain_instances_def mk_instance_def has_instance_def
           split: if_splits)

lemma chain_resolve:
  "resolveExecutionOrder chain_instances = Inr [''sys-logger'', ''db'', ''api'']"
  by (simp add: resolveExecutionOrder_def chain_instances_def mk_instance_def dfs_init_def
      visit.simps has_instance_def)

theorem resolveExecutionOrder_topological_witness:
  "acyclic (edges chain_instances)
   \<and> resolveExecutionOrder chain_instances = Inr [''sys-logger'', ''db'', ''api'']
   \<and> (\<exists>order. resolveExecutionOrder chain_instances = Inr order
           \<and> set order = fst ` set chain_instances \<and> distinct order
           \<and> (\<forall>c inst r t. map_of chain_instances c = Some inst \<and> (r, t) \<in> set (wiring inst) \<longrightarrow>
                 (if has_instance chain_instances t then precedes t c order
                  else t \<notin> set order)))"
proof -
  have h: "acyclic (edges chain_instances)" by (rule chain_acyclic)
  from resolveExecutionOrder_topological[OF h] h chain_resolve show ?thesis
    by (intro conjI)
qed

section \<open>The cycle diagnostic\<close>

text \<open>
  Claim C3. If the wiring among the registered instances contains a cycle (a self-wired
  instance is one), then \<^verbatim>\<open>resolveExecutionOrder\<close> fails, and so does \<^verbatim>\<open>start\<close>, dry run
  or not, with the error whose message is \<^verbatim>\<open>Cyclic dependency: \<close> followed by the
  ancestors joined by \<^verbatim>\<open> -> \<close> and the repeated node. The ancestors are the path \<open>pre\<close>
  from the instance the traversal started at, followed by the cycle \<open>cyc\<close>, which begins
  at the repeated node: the message ends with the cycle in the form
  \<^verbatim>\<open>a0 -> a1 -> ... -> ak -> a0\<close>, every node of which depends on the next, and no node is
  listed twice before the repetition.
\<close>

theorem resolveExecutionOrder_cycle_diagnostic:
  assumes "\<not> acyclic (edges insts)"
  shows "\<exists>pre cyc. cyc \<noteq> [] \<and> distinct (pre @ cyc) \<and> is_path insts (cyc @ [hd cyc])
           \<and> resolveExecutionOrder insts =
               Inl (new_Error (''Cyclic dependency: '' @ join '' -> '' (pre @ cyc @ [hd cyc])))
           \<and> suffix (join '' -> '' (cyc @ [hd cyc]))
               (''Cyclic dependency: '' @ join '' -> '' (pre @ cyc @ [hd cyc]))
           \<and> (\<forall>dryRun spawn eng. instances eng = insts \<longrightarrow>
                 fst (start dryRun spawn eng) =
                   Some (new_Error (''Cyclic dependency: '' @ join '' -> '' (pre @ cyc @ [hd cyc]))))"
proof -
  from assms obtain e where e: "resolveExecutionOrder insts = Inl e"
    using resolve_returns_iff_acyclic[of insts] by (cases "resolveExecutionOrder insts") auto
  from resolve_error_shape[OF e] obtain pre cyc where
    c: "cyc \<noteq> []" "distinct (pre @ cyc)" "is_path insts (pre @ cyc @ [hd cyc])"
    and m: "e = new_Error (''Cyclic dependency: '' @ join '' -> '' (pre @ cyc @ [hd cyc]))"
    unfolding cyclic_error_def by blast
  from c(3) have p: "is_path insts (cyc @ [hd cyc])" by (rule is_path_drop)
  have s: "suffix (join '' -> '' (cyc @ [hd cyc]))
             (''Cyclic dependency: '' @ join '' -> '' (pre @ cyc @ [hd cyc]))"
  proof (cases "pre = []")
    case True
    then show ?thesis by (simp add: suffix_def)
  next
    case False
    then have "join '' -> '' (pre @ (cyc @ [hd cyc]))
                 = join '' -> '' pre @ '' -> '' @ join '' -> '' (cyc @ [hd cyc])"
      by (intro join_append) auto
    then show ?thesis unfolding suffix_def
      by (intro exI[of _ "''Cyclic dependency: '' @ join '' -> '' pre @ '' -> ''"]) simp
  qed
  have st: "\<forall>dryRun spawn eng. instances eng = insts \<longrightarrow>
              fst (start dryRun spawn eng) = Some e"
    using e by (simp add: start_def Let_def)
  from c(1,2) p e s st show ?thesis unfolding m by blast
qed

lemma self_wired_cyclic: "\<not> acyclic (edges self_wired)"
proof -
  have "(''X'', ''X'') \<in> edges self_wired"
    by (simp add: edges_def deps_of_def self_wired_def mk_instance_def has_instance_def)
  then have "(''X'', ''X'') \<in> (edges self_wired)\<^sup>+" by (rule r_into_trancl)
  then show ?thesis by (auto simp: acyclic_def)
qed

lemma self_wired_resolve:
  "resolveExecutionOrder self_wired = Inl (new_Error ''Cyclic dependency: X -> X'')"
  by (simp add: resolveExecutionOrder_def self_wired_def mk_instance_def dfs_init_def
      visit.simps has_instance_def)

lemma two_cycle_resolve:
  "resolveExecutionOrder two_cycle = Inl (new_Error ''Cyclic dependency: app -> X -> Y -> X'')"
  by (simp add: resolveExecutionOrder_def two_cycle_def mk_instance_def dfs_init_def
      visit.simps has_instance_def)

theorem resolveExecutionOrder_cycle_diagnostic_witness:
  "\<not> acyclic (edges self_wired)
   \<and> resolveExecutionOrder self_wired = Inl (new_Error ''Cyclic dependency: X -> X'')
   \<and> (\<exists>pre cyc. cyc \<noteq> [] \<and> distinct (pre @ cyc) \<and> is_path self_wired (cyc @ [hd cyc])
           \<and> resolveExecutionOrder self_wired =
               Inl (new_Error (''Cyclic dependency: '' @ join '' -> '' (pre @ cyc @ [hd cyc])))
           \<and> suffix (join '' -> '' (cyc @ [hd cyc]))
               (''Cyclic dependency: '' @ join '' -> '' (pre @ cyc @ [hd cyc]))
           \<and> (\<forall>dryRun spawn eng. instances eng = self_wired \<longrightarrow>
                 fst (start dryRun spawn eng) =
                   Some (new_Error (''Cyclic dependency: '' @ join '' -> '' (pre @ cyc @ [hd cyc])))))"
proof -
  have h: "\<not> acyclic (edges self_wired)" by (rule self_wired_cyclic)
  from resolveExecutionOrder_cycle_diagnostic[OF h] h self_wired_resolve show ?thesis
    by (intro conjI)
qed

section \<open>Properties of the lifecycle engine\<close>

lemma emit_fields [simp]:
  "core_context (emit ev eng) = core_context eng"
  "pluginTypes (emit ev eng) = pluginTypes eng"
  "instances (emit ev eng) = instances eng"
  "workers (emit ev eng) = workers eng"
  "definitionsLocked (emit ev eng) = definitionsLocked eng"
  "trace (emit ev eng) = trace eng @ [ev]"
  by (simp_all add: emit_def)

lemma same_store_refl [simp]: "same_store a a"
  by (simp add: same_store_def)

lemma same_store_trans: "same_store a b \<Longrightarrow> same_store b c \<Longrightarrow> same_store a c"
  by (simp add: same_store_def)

lemma start_instance_store: "same_store (snd (start_instance spawn pid eng)) eng"
  by (simp add: start_instance_def same_store_def Let_def
      split: option.splits sum.splits execution_mode.splits prod.splits)

lemma start_loop_store: "same_store (snd (start_loop spawn ids eng)) eng"
proof (induction ids arbitrary: eng)
  case Nil
  then show ?case by simp
next
  case (Cons pid ids)
  show ?case
  proof (cases "start_instance spawn pid eng")
    case (Pair r eng')
    with start_instance_store[of spawn pid eng] have s: "same_store eng' eng" by simp
    show ?thesis
    proof (cases r)
      case None
      with Pair Cons.IH[of eng'] s show ?thesis by (auto intro: same_store_trans)
    next
      case (Some e)
      with Pair s show ?thesis by simp
    qed
  qed
qed

lemma start_store: "same_store (snd (start dryRun spawn eng)) eng"
proof (cases "resolveExecutionOrder (instances eng)")
  case (Inl e)
  then show ?thesis by (simp add: start_def same_store_def)
next
  case (Inr order)
  show ?thesis
  proof (cases dryRun)
    case True
    with Inr show ?thesis by (simp add: start_def same_store_def)
  next
    case False
    let ?e1 = "emit (Log (LExecutionOrder order)) (emit (Log (LStarting False)) eng)"
    have a: "same_store ?e1 eng" by (simp add: same_store_def)
    from start_loop_store[of spawn order ?e1] a
    have "same_store (snd (start_loop spawn order ?e1)) eng" by (rule same_store_trans)
    with Inr False show ?thesis
      by (cases "start_loop spawn order ?e1")
         (auto simp: start_def Let_def same_store_def split: option.splits)
  qed
qed

lemma try_teardown_store: "same_store (snd (try_teardown pid plugin ty eng)) eng"
  by (simp add: try_teardown_def same_store_def Let_def split: option.splits)

lemma stop_instance_store: "same_store (snd (stop_instance pid eng)) eng"
proof (cases "map_of (instances eng) pid")
  case None
  then show ?thesis by (simp add: stop_instance_def)
next
  case (Some plugin)
  with try_teardown_store[of pid plugin "pluginTypes eng (typeId plugin)" eng]
  show ?thesis
    by (cases "try_teardown pid plugin (pluginTypes eng (typeId plugin)) eng")
       (auto simp: stop_instance_def same_store_def split: option.splits)
qed

lemma stop_loop_store: "same_store (snd (stop_loop ids eng)) eng"
proof (induction ids arbitrary: eng)
  case Nil
  then show ?case by simp
next
  case (Cons pid ids)
  show ?case
  proof (cases "stop_instance pid eng")
    case (Pair r eng')
    with stop_instance_store[of pid eng] have s: "same_store eng' eng" by simp
    show ?thesis
    proof (cases r)
      case None
      with Pair Cons.IH[of eng'] s show ?thesis by (auto intro: same_store_trans)
    next
      case (Some e)
      with Pair s show ?thesis by simp
    qed
  qed
qed

lemma stop_store: "same_store (snd (stop dryRun eng)) eng"
proof (cases "resolveExecutionOrder (instances eng)")
  case (Inl e)
  then show ?thesis by (simp add: stop_def same_store_def)
next
  case (Inr order)
  show ?thesis
  proof (cases dryRun)
    case True
    with Inr show ?thesis by (simp add: stop_def same_store_def)
  next
    case False
    let ?e0 = "emit (Log (LStopping False)) eng"
    have a: "same_store ?e0 eng" by (simp add: same_store_def)
    from stop_loop_store[of "rev order" ?e0] a
    have "same_store (snd (stop_loop (rev order) ?e0)) eng" by (rule same_store_trans)
    with Inr False show ?thesis
      by (cases "stop_loop (rev order) ?e0")
         (auto simp: stop_def Let_def same_store_def split: option.splits)
  qed
qed

lemma apply_op_locked:
  assumes "definitionsLocked eng"
  shows "definitionsLocked (snd (apply_op op eng))
         \<and> pluginTypes (snd (apply_op op eng)) = pluginTypes eng"
proof (cases op)
  case (OpRegisterDefinition d)
  with assms show ?thesis by (simp add: registerDefinition_def)
next
  case OpLockDefinitions
  with assms show ?thesis by (simp add: lockDefinitions_def)
next
  case (OpRegisterPlugin p)
  with assms show ?thesis by (simp add: registerPlugin_def)
next
  case (OpRegisterService sid sch impl v)
  with assms show ?thesis by (simp split: prod.splits)
next
  case (OpStart d sp)
  with assms start_store[of d sp eng] show ?thesis by (simp add: same_store_def)
next
  case (OpStop d)
  with assms stop_store[of d eng] show ?thesis by (simp add: same_store_def)
qed

lemma run_ops_locked:
  "definitionsLocked eng \<Longrightarrow>
     definitionsLocked (run_ops ops eng) \<and> pluginTypes (run_ops ops eng) = pluginTypes eng"
proof (induction ops arbitrary: eng)
  case Nil
  then show ?case by simp
next
  case (Cons op ops)
  from apply_op_locked[OF Cons.prems, of op] Cons.IH[of "snd (apply_op op eng)"]
  show ?case by simp
qed




lemma no_rollback_refl [simp]: "no_rollback a a"
  by (simp add: no_rollback_def)

lemma no_rollback_trans: "no_rollback a b \<Longrightarrow> no_rollback b c \<Longrightarrow> no_rollback a c"
  by (auto simp: no_rollback_def)

lemma no_rollback_emit_log [simp]: "no_rollback a (emit (Log l) a)"
  by (simp add: no_rollback_def)

lemma start_instance_no_rollback: "no_rollback eng (snd (start_instance spawn pid eng))"
  by (auto simp: start_instance_def no_rollback_def Let_def
      split: option.splits sum.splits execution_mode.splits prod.splits)

lemma start_loop_no_rollback: "no_rollback eng (snd (start_loop spawn ids eng))"
proof (induction ids arbitrary: eng)
  case Nil
  then show ?case by simp
next
  case (Cons pid ids)
  show ?case
  proof (cases "start_instance spawn pid eng")
    case (Pair r eng')
    with start_instance_no_rollback[of eng spawn pid] have s: "no_rollback eng eng'" by simp
    show ?thesis
    proof (cases r)
      case None
      with Pair Cons.IH[of eng'] s show ?thesis by (auto intro: no_rollback_trans)
    next
      case (Some e)
      with Pair s show ?thesis by simp
    qed
  qed
qed

lemma start_loop_append:
  "start_loop spawn pre eng = (None, eng2)
     \<Longrightarrow> start_loop spawn (pre @ rest) eng = start_loop spawn rest eng2"
proof (induction pre arbitrary: eng)
  case Nil
  then show ?case by simp
next
  case (Cons pid pre)
  then show ?case
    by (cases "start_instance spawn pid eng") (auto split: option.splits)
qed

lemma start_abort_state:
  assumes "resolveExecutionOrder (instances eng) = Inr (pre @ k # post)"
    and "start_loop spawn pre
           (emit (Log (LExecutionOrder (pre @ k # post))) (emit (Log (LStarting False)) eng))
         = (None, eng2)"
    and "start_instance spawn k eng2 = (Some e, eng3)"
  shows "start False spawn eng = (Some e, eng3)"
  using assms(1,3) start_loop_append[OF assms(2), of "k # post"]
  by (simp add: start_def Let_def)



lemmas demo_defs = demo_engine_def running_engine_def ready_engine_def failing_engine_def unwired_worker_engine_def
  unwired_main_engine_def demo_types_def logger_type_def db_type_def api_type_def
  failing_type_def ok_schema_def demo_spawn_def chain_instances_def mk_instance_def

lemmas eval_defs = start_def start_instance_def stop_def stop_instance_def try_teardown_def
  resolveExecutionOrder_def dfs_init_def visit.simps has_instance_def emit_def Let_def
  registerService_def getService_def hasService_def wired_def new_Error_def quoted_def


section \<open>Stopping\<close>




section \<open>A start that fails\<close>

text \<open>
  Claim C5, as the code has it. If the resolver returns the order \<open>pre @ k # post\<close>, the
  instances of \<open>pre\<close> start, and processing \<open>k\<close> throws \<open>e\<close>, then \<^verbatim>\<open>start()\<close> fails
  with \<open>e\<close> in the state that throw left: during \<^verbatim>\<open>start()\<close> no teardown hook is invoked
  and no worker is terminated or forgotten, so the instances already started stay up.
\<close>

theorem start_aborts_without_rollback:
  assumes "resolveExecutionOrder (instances eng) = Inr (pre @ k # post)"
    and "start_loop spawn pre
           (emit (Log (LExecutionOrder (pre @ k # post))) (emit (Log (LStarting False)) eng))
         = (None, eng2)"
    and "start_instance spawn k eng2 = (Some e, eng3)"
  shows "start False spawn eng = (Some e, eng3)
         \<and> filter is_teardown (trace eng3) = filter is_teardown (trace eng)
         \<and> dom (workers eng) \<subseteq> dom (workers eng3)"
proof -
  let ?e1 = "emit (Log (LExecutionOrder (pre @ k # post))) (emit (Log (LStarting False)) eng)"
  have a: "no_rollback eng ?e1" by (simp add: no_rollback_def)
  from start_loop_no_rollback[of ?e1 spawn pre] assms(2) have b: "no_rollback ?e1 eng2" by simp
  from start_instance_no_rollback[of eng2 spawn k] assms(3) have c: "no_rollback eng2 eng3"
    by simp
  from a b c have "no_rollback eng eng3" by (blast intro: no_rollback_trans)
  with start_abort_state[OF assms] show ?thesis by (simp add: no_rollback_def)
qed

theorem start_aborts_without_rollback_witness:
  "resolveExecutionOrder (instances failing_engine) = Inr ([''log''] @ ''job'' # [])
   \<and> fst (start_loop demo_spawn [''log'']
            (emit (Log (LExecutionOrder ([''log''] @ ''job'' # [])))
               (emit (Log (LStarting False)) failing_engine))) = None
   \<and> fst (start_instance demo_spawn ''job''
            (snd (start_loop demo_spawn [''log'']
                   (emit (Log (LExecutionOrder ([''log''] @ ''job'' # [])))
                      (emit (Log (LStarting False)) failing_engine)))))
       = Some (JsError ''Error'' ''boom'')
   \<and> fst (start False demo_spawn failing_engine) = Some (JsError ''Error'' ''boom'')
   \<and> filter is_teardown (trace (snd (start False demo_spawn failing_engine))) = []"
proof -
  let ?e1 = "emit (Log (LExecutionOrder ([''log''] @ ''job'' # [])))
               (emit (Log (LStarting False)) failing_engine)"
  let ?e2 = "snd (start_loop demo_spawn [''log''] ?e1)"
  let ?e3 = "snd (start_instance demo_spawn ''job'' ?e2)"
  have h1: "resolveExecutionOrder (instances failing_engine) = Inr ([''log''] @ ''job'' # [])"
    by (simp add: demo_defs eval_defs)
  have f2: "fst (start_loop demo_spawn [''log''] ?e1) = None"
    by (simp add: demo_defs eval_defs)
  then have h2: "start_loop demo_spawn [''log''] ?e1 = (None, ?e2)"
    by (simp add: prod_eq_iff)
  have f3: "fst (start_instance demo_spawn ''job'' ?e2) = Some (JsError ''Error'' ''boom'')"
    by (simp add: demo_defs eval_defs)
  then have h3: "start_instance demo_spawn ''job'' ?e2 = (Some (JsError ''Error'' ''boom''), ?e3)"
    by (simp add: prod_eq_iff)
  have t0: "trace failing_engine = []" by (simp add: failing_engine_def)
  from start_aborts_without_rollback[OF h1 h2 h3] h1 f2 f3 t0 show ?thesis by simp
qed


text \<open>
  The claim as stated fails: \<open>log\<close> starts, \<open>job\<close> throws in its setup, and \<^verbatim>\<open>start()\<close>
  returns the error with \<open>log\<close>, whose type has a teardown hook, never torn down and its
  service still registered.
\<close>

theorem start_leaves_started_instances_up:
  "fst (start False demo_spawn failing_engine) = Some (JsError ''Error'' ''boom'')
   \<and> resolveExecutionOrder (instances failing_engine) = Inr [''log'', ''job'']
   \<and> SetupCalled ''log'' \<in> set (trace (snd (start False demo_spawn failing_engine)))
   \<and> teardown_hook logger_type \<noteq> None
   \<and> TeardownCalled ''log'' \<notin> set (trace (snd (start False demo_spawn failing_engine)))
   \<and> core_context (snd (start False demo_spawn failing_engine)) ''log'' = Some (JObj ''logger'')"
  by (simp add: demo_defs eval_defs)


section \<open>Missing wiring\<close>





section \<open>What setup returns and what it registers\<close>




section \<open>The lock\<close>

text \<open>
  Claim C9. After \<^verbatim>\<open>lockDefinitions()\<close>, whatever calls \<open>ops\<close> the host makes on the
  engine: the lock is still set, \<^verbatim>\<open>registerDefinition\<close> fails with the registry-locked
  error and changes nothing, the type store is the one that was locked, locking again
  changes nothing, and \<^verbatim>\<open>registerPlugin\<close> is accepted exactly when the type is known and
  the id is free, as without the lock.
\<close>

theorem lock_monotone:
  "definitionsLocked (run_ops ops (lockDefinitions eng))
   \<and> registerDefinition def (run_ops ops (lockDefinitions eng)) =
       (Some (new_Error (''Registry is locked. Cannot register new plugin type: ''
                          @ quoted (type_id def))),
        run_ops ops (lockDefinitions eng))
   \<and> pluginTypes (run_ops ops (lockDefinitions eng)) = pluginTypes eng
   \<and> lockDefinitions (lockDefinitions eng) = lockDefinitions eng
   \<and> (fst (registerPlugin plugin (run_ops ops (lockDefinitions eng))) = None \<longleftrightarrow>
        typeId plugin \<in> dom (pluginTypes eng)
        \<and> \<not> has_instance (instances (run_ops ops (lockDefinitions eng))) (inst_id plugin))"
proof -
  have l: "definitionsLocked (lockDefinitions eng)" by (simp add: lockDefinitions_def)
  from run_ops_locked[OF l, of ops]
  have a: "definitionsLocked (run_ops ops (lockDefinitions eng))"
    and b: "pluginTypes (run_ops ops (lockDefinitions eng)) = pluginTypes eng"
    by (simp_all add: lockDefinitions_def)
  from a have c: "registerDefinition def (run_ops ops (lockDefinitions eng)) =
       (Some (new_Error (''Registry is locked. Cannot register new plugin type: ''
                          @ quoted (type_id def))),
        run_ops ops (lockDefinitions eng))"
    by (simp add: registerDefinition_def)
  have d: "lockDefinitions (lockDefinitions eng) = lockDefinitions eng"
    by (simp add: lockDefinitions_def)
  have e: "fst (registerPlugin plugin (run_ops ops (lockDefinitions eng))) = None \<longleftrightarrow>
        typeId plugin \<in> dom (pluginTypes eng)
        \<and> \<not> has_instance (instances (run_ops ops (lockDefinitions eng))) (inst_id plugin)"
    using b by (simp add: registerPlugin_def)
  from a b c d e show ?thesis by (intro conjI)
qed


section \<open>The chain, started\<close>

text \<open>
  The model on the chain: \<^verbatim>\<open>start()\<close> sets up the logger, spawns the database worker and
  registers its proxy, sets up the API, which finds the service it registered itself kept,
  and leaves the service that is not an instance alone; a dry run only prints.
\<close>

lemma demo_start:
  "fst (start False demo_spawn demo_engine) = None
   \<and> core_context (snd (start False demo_spawn demo_engine))
       = [''ext-metrics'' \<mapsto> JObj ''metrics'', ''sys-logger'' \<mapsto> JObj ''logger'',
          ''db'' \<mapsto> JProxy ''db'', ''api'' \<mapsto> JObj ''registered'']
   \<and> trace (snd (start False demo_spawn demo_engine))
       = [Log (LStarting False), Log (LExecutionOrder [''sys-logger'', ''db'', ''api'']),
          Log (LInitializing ''sys-logger'' MainMode), SetupCalled ''sys-logger'',
          Log (LInitializing ''db'' WorkerMode), UplinkServerCreated ''db'', WorkerSpawned ''db'',
          Log (LInitializing ''api'' MainMode), SetupCalled ''api'',
          Log LSystemReady]
   \<and> dom (workers (snd (start False demo_spawn demo_engine))) = {''db''}"
  by (simp add: demo_defs eval_defs)

lemma demo_dry_run:
  "start True demo_spawn demo_engine =
     (None, demo_engine\<lparr>trace := [Log (LStarting True),
                                    Log (LExecutionOrder [''sys-logger'', ''db'', ''api'']),
                                    Log LMermaidHeader, Log LSeparator, Log LMermaidGraph,
                                    Log LSeparator, Log LSystemReady]\<rparr>)"
  by (simp add: demo_defs eval_defs)

section \<open>Properties of the two clients\<close>

lemma uplink_step_keeps_pending:
  assumes "cid \<in> up_pending c" and "up_settled c cid = None" and "\<not> uplink_answers cid ev"
  shows "cid \<in> up_pending (uplink_step ev c) \<and> up_settled (uplink_step ev c) cid = None"
proof (cases ev)
  case (UplinkCall i s m a)
  with assms show ?thesis by (simp add: uplink_call_def)
next
  case (UplinkMessage stk msg)
  with assms show ?thesis
    by (cases msg) (auto simp: up_settle_def Let_def)
next
  case (UplinkAdvance dt)
  with assms show ?thesis by (simp add: uplink_advance_def)
qed

lemma uplink_fold_keeps_pending:
  "cid \<in> up_pending c \<Longrightarrow> up_settled c cid = None \<Longrightarrow> \<forall>ev\<in>set evs. \<not> uplink_answers cid ev
     \<Longrightarrow> cid \<in> up_pending (fold uplink_step evs c) \<and> up_settled (fold uplink_step evs c) cid = None"
proof (induction evs arbitrary: c)
  case Nil
  then show ?case by simp
next
  case (Cons ev evs)
  from uplink_step_keeps_pending[OF Cons.prems(1,2), of ev] Cons.prems(3)
  have "cid \<in> up_pending (uplink_step ev c)" "up_settled (uplink_step ev c) cid = None" by auto
  from Cons.IH[OF this] Cons.prems(3) show ?case by simp
qed

lemma rc_settle_fields [simp]:
  "rc_pending (rc_settle i out c) = rc_pending c"
  "rc_timers (rc_settle i out c) = rc_timers c"
  "rc_now (rc_settle i out c) = rc_now c"
  "rc_timeoutMs (rc_settle i out c) = rc_timeoutMs c"
  by (simp_all add: rc_settle_def)

lemma rc_settle_other: "i \<noteq> cid \<Longrightarrow> rc_settled (rc_settle i out c) cid = rc_settled c cid"
  by (simp add: rc_settle_def)

lemma rc_settle_done: "rc_settled c cid = Some out' \<Longrightarrow> rc_settled (rc_settle i out c) cid = Some out'"
  by (auto simp: rc_settle_def)

lemma rc_settle_fresh: "rc_settled c cid = None \<Longrightarrow> rc_settled (rc_settle cid out c) cid = Some out"
  by (auto simp: rc_settle_def)

lemma rpc_timer_fires_fields [simp]:
  "rc_timers (rpc_timer_fires stk t c) = rc_timers c"
  "rc_now (rpc_timer_fires stk t c) = rc_now c"
  "rc_timeoutMs (rpc_timer_fires stk t c) = rc_timeoutMs c"
  "rc_pending (rpc_timer_fires stk t c) = rc_pending c - {fst t}"
  by (simp_all add: rpc_timer_fires_def split: prod.splits)

lemma fold_fires_fields [simp]:
  "rc_timers (fold (rpc_timer_fires stk) due c) = rc_timers c"
  "rc_now (fold (rpc_timer_fires stk) due c) = rc_now c"
  "rc_timeoutMs (fold (rpc_timer_fires stk) due c) = rc_timeoutMs c"
  "rc_pending (fold (rpc_timer_fires stk) due c) = rc_pending c - fst ` set due"
  by (induction due arbitrary: c; auto)+

lemma fold_fires_other:
  "filter (\<lambda>t. fst t = cid) due = [] \<Longrightarrow>
     rc_settled (fold (rpc_timer_fires stk) due c) cid = rc_settled c cid"
proof (induction due arbitrary: c)
  case Nil
  then show ?case by simp
next
  case (Cons t due)
  from Cons.prems have ne: "fst t \<noteq> cid" and r: "filter (\<lambda>t. fst t = cid) due = []"
    by (auto split: if_splits)
  have "rc_settled (rpc_timer_fires stk t c) cid = rc_settled c cid"
    using ne by (cases t) (simp add: rpc_timer_fires_def rc_settle_other)
  with Cons.IH[OF r, of "rpc_timer_fires stk t c"] show ?case by simp
qed

lemma fold_fires_done:
  "rc_settled c cid = Some out \<Longrightarrow> rc_settled (fold (rpc_timer_fires stk) due c) cid = Some out"
proof (induction due arbitrary: c)
  case Nil
  then show ?case by simp
next
  case (Cons t due)
  have "rc_settled (rpc_timer_fires stk t c) cid = Some out"
    using Cons.prems by (cases t) (simp add: rpc_timer_fires_def rc_settle_done)
  from Cons.IH[OF this] show ?case by simp
qed

lemma fold_fires_this:
  "filter (\<lambda>t. fst t = cid) due = [(cid, d, prop)] \<Longrightarrow> rc_settled c cid = None \<Longrightarrow>
     rc_settled (fold (rpc_timer_fires stk) due c) cid
       = Some (Rejected (timeout_error stk prop (rc_timeoutMs c)))"
proof (induction due arbitrary: c)
  case Nil
  then show ?case by simp
next
  case (Cons t due)
  show ?case
  proof (cases "fst t = cid")
    case True
    with Cons.prems(1) have t: "t = (cid, d, prop)" by simp
    have "rc_settled (rpc_timer_fires stk t c) cid
            = Some (Rejected (timeout_error stk prop (rc_timeoutMs c)))"
      using Cons.prems(2) unfolding t
      by (simp add: rpc_timer_fires_def timeout_error_def rc_settle_fresh)
    from fold_fires_done[OF this, of stk due] show ?thesis by simp
  next
    case False
    with Cons.prems(1) have r: "filter (\<lambda>t. fst t = cid) due = [(cid, d, prop)]" by simp
    have "rc_settled (rpc_timer_fires stk t c) cid = None"
      using False Cons.prems(2) by (cases t) (simp add: rpc_timer_fires_def rc_settle_other)
    from Cons.IH[OF r this] show ?thesis by simp
  qed
qed

lemma rpc_step_timeoutMs [simp]: "rc_timeoutMs (rpc_step ev c) = rc_timeoutMs c"
proof (cases ev)
  case (RpcCall i p a)
  then show ?thesis by (simp add: rpc_call_def)
next
  case (RpcMessage stk msg)
  then show ?thesis by (cases msg) (simp_all add: Let_def rc_clearTimeout_def)
next
  case (RpcAdvance stk dt)
  then show ?thesis by (simp add: rpc_advance_def Let_def)
qed

lemma rpc_step_now_mono: "rc_now c \<le> rc_now (rpc_step ev c)"
proof (cases ev)
  case (RpcCall i p a)
  then show ?thesis by (simp add: rpc_call_def)
next
  case (RpcMessage stk msg)
  then show ?thesis by (cases msg) (simp_all add: Let_def rc_clearTimeout_def)
next
  case (RpcAdvance stk dt)
  then show ?thesis by (simp add: rpc_advance_def Let_def)
qed

lemma rpc_step_waiting:
  assumes "rpc_waiting c cid prop d" and "\<not> rpc_touches cid ev"
  shows "rpc_waiting (rpc_step ev c) cid prop d
         \<or> (d \<le> rc_now (rpc_step ev c) \<and> rpc_timed_out (rpc_step ev c) cid prop)"
proof (cases ev)
  case (RpcCall i p a)
  with assms show ?thesis by (auto simp: rpc_call_def rpc_waiting_def)
next
  case (RpcMessage stk msg)
  show ?thesis
  proof (cases msg)
    case (RESPONSE i r)
    with RpcMessage assms(2) have ne: "i \<noteq> cid" by simp
    then have f: "filter (\<lambda>t. fst t = cid) (filter (\<lambda>t. fst t \<noteq> i) (rc_timers c))
                   = filter (\<lambda>t. fst t = cid) (rc_timers c)"
      by (induction "rc_timers c") (auto intro: filter_cong)
    from assms(1) ne f show ?thesis unfolding RpcMessage RESPONSE
      by (auto simp: rpc_waiting_def Let_def rc_clearTimeout_def rc_settle_other)
  next
    case (ERROR i e)
    with RpcMessage assms(2) have ne: "i \<noteq> cid" by simp
    then have f: "filter (\<lambda>t. fst t = cid) (filter (\<lambda>t. fst t \<noteq> i) (rc_timers c))
                   = filter (\<lambda>t. fst t = cid) (rc_timers c)"
      by (induction "rc_timers c") (auto intro: filter_cong)
    from assms(1) ne f show ?thesis unfolding RpcMessage ERROR
      by (auto simp: rpc_waiting_def Let_def rc_clearTimeout_def rc_settle_other)
  qed (use RpcMessage assms in simp_all)
next
  case (RpcAdvance stk dt)
  let ?now = "rc_now c + dt"
  let ?due = "filter (\<lambda>t. fst (snd t) \<le> ?now) (rc_timers c)"
  let ?later = "filter (\<lambda>t. \<not> fst (snd t) \<le> ?now) (rc_timers c)"
  let ?c0 = "c\<lparr>rc_now := ?now, rc_timers := ?later\<rparr>"
  have st: "rpc_step ev c = fold (rpc_timer_fires stk) ?due ?c0"
    unfolding RpcAdvance by (simp add: rpc_advance_def Let_def)
  from assms(1) have w: "cid \<in> rc_pending c" "rc_settled c cid = None"
    "filter (\<lambda>t. fst t = cid) (rc_timers c) = [(cid, d, prop)]" "rc_now c < d"
    by (simp_all add: rpc_waiting_def)
  have sw: "filter (\<lambda>t. fst t = cid) (filter P (rc_timers c)) = filter P [(cid, d, prop)]" for P
  proof -
    have "filter (\<lambda>t. fst t = cid) (filter P (rc_timers c))
            = filter P (filter (\<lambda>t. fst t = cid) (rc_timers c))"
      by (simp add: conj_commute)
    then show ?thesis by (simp only: w(3))
  qed
  show ?thesis
  proof (cases "d \<le> ?now")
    case True
    have due: "filter (\<lambda>t. fst t = cid) ?due = [(cid, d, prop)]"
      unfolding sw using True by simp
    have later: "filter (\<lambda>t. fst t = cid) ?later = []"
      unfolding sw using True by simp
    have mem: "cid \<in> fst ` set ?due"
    proof -
      have "(cid, d, prop) \<in> set (filter (\<lambda>t. fst t = cid) ?due)" unfolding due by simp
      then have "(cid, d, prop) \<in> set ?due" by (simp only: set_filter) blast
      then show ?thesis by (rule rev_image_eqI) simp
    qed
    have "rc_settled (fold (rpc_timer_fires stk) ?due ?c0) cid
            = Some (Rejected (timeout_error stk prop (rc_timeoutMs ?c0)))"
      using w(2) by (intro fold_fires_this[OF due]) simp
    with mem later True show ?thesis unfolding st
      by (auto simp: rpc_timed_out_def)
  next
    case False
    have due: "filter (\<lambda>t. fst t = cid) ?due = []"
      unfolding sw using False by simp
    have later: "filter (\<lambda>t. fst t = cid) ?later = [(cid, d, prop)]"
      unfolding sw using False by simp
    have nm: "cid \<notin> fst ` set ?due"
    proof
      assume "cid \<in> fst ` set ?due"
      then obtain t where "t \<in> set ?due" "fst t = cid" by auto
      then have "t \<in> set (filter (\<lambda>t. fst t = cid) ?due)" by simp
      with due show False by simp
    qed
    have "rc_settled (fold (rpc_timer_fires stk) ?due ?c0) cid = rc_settled ?c0 cid"
      by (rule fold_fires_other[OF due])
    with w nm later False show ?thesis unfolding st
      by (auto simp: rpc_waiting_def)
  qed
qed

lemma rpc_step_timed_out:
  assumes "rpc_timed_out c cid prop" and "\<not> rpc_touches cid ev"
  shows "rpc_timed_out (rpc_step ev c) cid prop"
proof (cases ev)
  case (RpcCall i p a)
  with assms show ?thesis by (auto simp: rpc_call_def rpc_timed_out_def)
next
  case (RpcMessage stk msg)
  show ?thesis
  proof (cases msg)
    case (RESPONSE i r)
    with RpcMessage assms(2) have ne: "i \<noteq> cid" by simp
    from assms(1) ne show ?thesis unfolding RpcMessage RESPONSE
      by (auto simp: rpc_timed_out_def Let_def rc_clearTimeout_def rc_settle_other
               filter_empty_conv)
  next
    case (ERROR i e)
    with RpcMessage assms(2) have ne: "i \<noteq> cid" by simp
    from assms(1) ne show ?thesis unfolding RpcMessage ERROR
      by (auto simp: rpc_timed_out_def Let_def rc_clearTimeout_def rc_settle_other
               filter_empty_conv)
  qed (use RpcMessage assms in simp_all)
next
  case (RpcAdvance stk dt)
  let ?now = "rc_now c + dt"
  let ?due = "filter (\<lambda>t. fst (snd t) \<le> ?now) (rc_timers c)"
  let ?later = "filter (\<lambda>t. \<not> fst (snd t) \<le> ?now) (rc_timers c)"
  let ?c0 = "c\<lparr>rc_now := ?now, rc_timers := ?later\<rparr>"
  have st: "rpc_step ev c = fold (rpc_timer_fires stk) ?due ?c0"
    unfolding RpcAdvance by (simp add: rpc_advance_def Let_def)
  from assms(1) obtain s where t: "cid \<notin> rc_pending c"
    "rc_settled c cid = Some (Rejected (timeout_error s prop (rc_timeoutMs c)))"
    "filter (\<lambda>t. fst t = cid) (rc_timers c) = []"
    by (auto simp: rpc_timed_out_def)
  have "rc_settled ?c0 cid = Some (Rejected (timeout_error s prop (rc_timeoutMs c)))"
    using t(2) by simp
  from fold_fires_done[OF this, of stk ?due]
  have "rc_settled (fold (rpc_timer_fires stk) ?due ?c0) cid
          = Some (Rejected (timeout_error s prop (rc_timeoutMs c)))" .
  moreover have "filter (\<lambda>t. fst t = cid) ?later = []"
    using t(3) by (auto simp: filter_empty_conv)
  ultimately show ?thesis unfolding st using t(1)
    by (auto simp: rpc_timed_out_def)
qed

lemma rpc_fold_now_mono: "rc_now c \<le> rc_now (fold rpc_step evs c)"
proof (induction evs arbitrary: c)
  case Nil
  show ?case by simp
next
  case (Cons e es)
  have "rc_now c \<le> rc_now (rpc_step e c)" by (rule rpc_step_now_mono)
  also have "\<dots> \<le> rc_now (fold rpc_step es (rpc_step e c))" by (rule Cons.IH)
  finally show ?case by simp
qed

lemma rpc_fold_timed_out:
  "rpc_timed_out c cid prop \<Longrightarrow> \<forall>ev\<in>set evs. \<not> rpc_touches cid ev
     \<Longrightarrow> rpc_timed_out (fold rpc_step evs c) cid prop"
proof (induction evs arbitrary: c)
  case Nil
  then show ?case by simp
next
  case (Cons ev evs)
  from rpc_step_timed_out[OF Cons.prems(1), of ev] Cons.prems(2)
  have "rpc_timed_out (rpc_step ev c) cid prop" by simp
  from Cons.IH[OF this] Cons.prems(2) show ?case by simp
qed

lemma rpc_fold_waiting:
  "rpc_waiting c cid prop d \<Longrightarrow> \<forall>ev\<in>set evs. \<not> rpc_touches cid ev
     \<Longrightarrow> rpc_waiting (fold rpc_step evs c) cid prop d
         \<or> (d \<le> rc_now (fold rpc_step evs c) \<and> rpc_timed_out (fold rpc_step evs c) cid prop)"
proof (induction evs arbitrary: c)
  case Nil
  then show ?case by simp
next
  case (Cons ev evs)
  from Cons.prems(2) have nt: "\<not> rpc_touches cid ev" and rest: "\<forall>ev\<in>set evs. \<not> rpc_touches cid ev"
    by simp_all
  from rpc_step_waiting[OF Cons.prems(1) nt]
  show ?case
  proof
    assume "rpc_waiting (rpc_step ev c) cid prop d"
    from Cons.IH[OF this rest] show ?thesis by simp
  next
    assume a: "d \<le> rc_now (rpc_step ev c) \<and> rpc_timed_out (rpc_step ev c) cid prop"
    from a rpc_fold_timed_out[OF _ rest, of "rpc_step ev c" "prop"]
      rpc_fold_now_mono[of "rpc_step ev c" evs]
    show ?thesis by auto
  qed
qed


text \<open>
  The downlink client keeps the deadline: a call that nothing answers is rejected with the
  timeout error, and its entry has left the pending map, once the clock has reached the
  deadline.
\<close>

lemma rpc_call_times_out:
  assumes "0 < rc_timeoutMs c" and "rc_settled c cid = None"
    and "filter (\<lambda>t. fst t = cid) (rc_timers c) = []"
    and "\<forall>ev\<in>set evs. \<not> rpc_touches cid ev"
    and "rc_now c + rc_timeoutMs c \<le> rc_now (fold rpc_step evs (rpc_call cid prop args c))"
  shows "cid \<notin> rc_pending (fold rpc_step evs (rpc_call cid prop args c))
         \<and> (\<exists>stk. rc_settled (fold rpc_step evs (rpc_call cid prop args c)) cid
                    = Some (Rejected (timeout_error stk prop (rc_timeoutMs c))))"
proof -
  let ?c1 = "rpc_call cid prop args c"
  have w: "rpc_waiting ?c1 cid prop (rc_now c + rc_timeoutMs c)"
    using assms(1-3) by (simp add: rpc_waiting_def rpc_call_def)
  have T: "rc_timeoutMs (fold rpc_step evs ?c1) = rc_timeoutMs c"
    by (induction evs rule: rev_induct) (simp_all add: rpc_call_def)
  from rpc_fold_waiting[OF w assms(4)] assms(5)
  have "rpc_timed_out (fold rpc_step evs ?c1) cid prop" by (auto simp: rpc_waiting_def)
  then show ?thesis unfolding rpc_timed_out_def T by blast
qed

lemma rpc_call_times_out_example:
  "rc_settled (fold rpc_step [RpcAdvance ''at timer'' 10000]
       (rpc_call ''c1'' ''query'' [] (createRpcClient DEFAULT_RPC_TIMEOUT_MS 0))) ''c1''
     = Some (Rejected (new_Error_at ''at timer'' ''RPC Timeout: Call to 'query' took > 10000ms''))
   \<and> rc_pending (fold rpc_step [RpcAdvance ''at timer'' 10000]
       (rpc_call ''c1'' ''query'' [] (createRpcClient DEFAULT_RPC_TIMEOUT_MS 0))) = {}"
  by (simp add: rpc_call_def createRpcClient_def DEFAULT_RPC_TIMEOUT_MS_def rpc_advance_def
      rpc_timer_fires_def rc_settle_def Let_def quoted_def show_nat.simps digit_char_def)


section \<open>The uplink has no deadline\<close>

text \<open>
  Claim C4 at the uplink client. After a leaf call \<open>cid\<close> of the uplink proxy, as long as
  no response and no error frame for \<open>cid\<close> arrives, the entry of the call stays in the
  pending map and its promise stays unsettled, however the clock moves: no timer exists,
  so the call is never rejected with a timeout and its entry is never removed.
\<close>

theorem uplink_call_never_times_out:
  assumes "up_settled c cid = None" and "\<forall>ev\<in>set evs. \<not> uplink_answers cid ev"
  shows "cid \<in> up_pending (fold uplink_step evs (uplink_call cid serviceName method args c))
         \<and> up_settled (fold uplink_step evs (uplink_call cid serviceName method args c)) cid = None"
  using assms
  by (intro uplink_fold_keeps_pending) (simp_all add: uplink_call_def)

theorem uplink_call_never_times_out_witness:
  "up_settled (createUplinkClient 0) ''u1'' = None
   \<and> \<not> uplink_answers ''u1'' (UplinkAdvance 10000)
   \<and> \<not> uplink_answers ''u1'' (UplinkMessage ''at host'' (UPLINK_RESPONSE ''u0'' JNull))
   \<and> \<not> uplink_answers ''u1'' (UplinkAdvance 3600000)
   \<and> ''u1'' \<in> up_pending (fold uplink_step
        [UplinkAdvance 10000, UplinkMessage ''at host'' (UPLINK_RESPONSE ''u0'' JNull),
         UplinkAdvance 3600000]
        (uplink_call ''u1'' ''logger'' ''info'' [JStr ''hello''] (createUplinkClient 0)))
   \<and> up_settled (fold uplink_step
        [UplinkAdvance 10000, UplinkMessage ''at host'' (UPLINK_RESPONSE ''u0'' JNull),
         UplinkAdvance 3600000]
        (uplink_call ''u1'' ''logger'' ''info'' [JStr ''hello''] (createUplinkClient 0))) ''u1'' = None
   \<and> up_now (fold uplink_step
        [UplinkAdvance 10000, UplinkMessage ''at host'' (UPLINK_RESPONSE ''u0'' JNull),
         UplinkAdvance 3600000]
        (uplink_call ''u1'' ''logger'' ''info'' [JStr ''hello''] (createUplinkClient 0))) = 3610000"
proof -
  let ?evs = "[UplinkAdvance 10000, UplinkMessage ''at host'' (UPLINK_RESPONSE ''u0'' JNull),
               UplinkAdvance 3600000]"
  have h1: "up_settled (createUplinkClient 0) ''u1'' = None" by (simp add: createUplinkClient_def)
  have h2: "\<forall>ev\<in>set ?evs. \<not> uplink_answers ''u1'' ev" by simp
  have n: "up_now (fold uplink_step ?evs
        (uplink_call ''u1'' ''logger'' ''info'' [JStr ''hello''] (createUplinkClient 0))) = 3610000"
    by (simp add: uplink_call_def createUplinkClient_def uplink_advance_def up_settle_def Let_def)
  from uplink_call_never_times_out[OF h1 h2, of "''logger''" "''info''" "[JStr ''hello'']"] h1 h2 n
  show ?thesis by (intro conjI) simp_all
qed


section \<open>Errors across the channel\<close>

text \<open>
  Claim C7, as the code has it. When a service method throws \<open>err\<close> during a
  \<^verbatim>\<open>CALL\<close>, the \<^verbatim>\<open>ERROR\<close> frame carries the message of \<open>err\<close>, a string, and the
  client rejects the pending call with a new \<^verbatim>\<open>Error\<close> of that message: its name is
  \<^verbatim>\<open>Error\<close> and its stack is the one captured at the client. The uplink does the same in
  the reverse direction with \<^verbatim>\<open>UPLINK_ERROR\<close>.
\<close>

theorem error_frame_carries_message_only:
  assumes "service m args = Inl err"
  shows "rpc_server_on_message service (CALL cid m args) = [ERROR cid (eo_message err)]
         \<and> (cid \<in> rc_pending c \<and> rc_settled c cid = None \<longrightarrow>
              rc_settled (rpc_on_message stk (ERROR cid (eo_message err)) c) cid
                = Some (Rejected \<lparr>eo_name = ''Error'', eo_message = eo_message err,
                                   eo_stack = stk\<rparr>)
              \<and> cid \<notin> rc_pending (rpc_on_message stk (ERROR cid (eo_message err)) c))
         \<and> (wired w sn = Some sid \<and> svcs sid = Some v \<and> invoke v = service \<longrightarrow>
              uplink_server_on_message svcs w invoke (UPLINK_CALL cid sn m args)
                = [UPLINK_ERROR cid (eo_message err)])
         \<and> (cid \<in> up_pending u \<and> up_settled u cid = None \<longrightarrow>
              up_settled (uplink_on_message stk (UPLINK_ERROR cid (eo_message err)) u) cid
                = Some (Rejected \<lparr>eo_name = ''Error'', eo_message = eo_message err,
                                   eo_stack = stk\<rparr>)
              \<and> cid \<notin> up_pending (uplink_on_message stk (UPLINK_ERROR cid (eo_message err)) u))"
proof -
  have a: "rpc_server_on_message service (CALL cid m args) = [ERROR cid (eo_message err)]"
    using assms by simp
  have b: "cid \<in> rc_pending c \<and> rc_settled c cid = None \<longrightarrow>
              rc_settled (rpc_on_message stk (ERROR cid (eo_message err)) c) cid
                = Some (Rejected \<lparr>eo_name = ''Error'', eo_message = eo_message err,
                                   eo_stack = stk\<rparr>)
              \<and> cid \<notin> rc_pending (rpc_on_message stk (ERROR cid (eo_message err)) c)"
    by (auto simp: Let_def rc_settle_def rc_clearTimeout_def new_Error_at_def)
  have c: "wired w sn = Some sid \<and> svcs sid = Some v \<and> invoke v = service \<longrightarrow>
              uplink_server_on_message svcs w invoke (UPLINK_CALL cid sn m args)
                = [UPLINK_ERROR cid (eo_message err)]"
    using assms by (auto simp: getService_def)
  have d: "cid \<in> up_pending u \<and> up_settled u cid = None \<longrightarrow>
              up_settled (uplink_on_message stk (UPLINK_ERROR cid (eo_message err)) u) cid
                = Some (Rejected \<lparr>eo_name = ''Error'', eo_message = eo_message err,
                                   eo_stack = stk\<rparr>)
              \<and> cid \<notin> up_pending (uplink_on_message stk (UPLINK_ERROR cid (eo_message err)) u)"
    by (auto simp: Let_def up_settle_def new_Error_at_def)
  from a b c d show ?thesis by (intro conjI)
qed

theorem error_frame_carries_message_only_witness:
  "throwing_service ''query'' [JStr ''SELECT 1''] = Inl worker_error
   \<and> rpc_server_on_message throwing_service (CALL ''c1'' ''query'' [JStr ''SELECT 1''])
       = [ERROR ''c1'' ''boom'']
   \<and> ''c1'' \<in> rc_pending (rpc_call ''c1'' ''query'' [JStr ''SELECT 1''] (createRpcClient 10000 0))
   \<and> rc_settled (rpc_on_message ''Error: boom at host'' (ERROR ''c1'' ''boom'')
        (rpc_call ''c1'' ''query'' [JStr ''SELECT 1''] (createRpcClient 10000 0))) ''c1''
       = Some (Rejected \<lparr>eo_name = ''Error'', eo_message = ''boom'',
                          eo_stack = ''Error: boom at host''\<rparr>)
   \<and> wired [(''db'', ''db-main'')] ''db'' = Some ''db-main''
   \<and> uplink_server_on_message [''db-main'' \<mapsto> JObj ''db''] [(''db'', ''db-main'')]
        (\<lambda>v. throwing_service) (UPLINK_CALL ''u1'' ''db'' ''query'' [JStr ''SELECT 1''])
       = [UPLINK_ERROR ''u1'' ''boom'']
   \<and> up_settled (uplink_on_message ''Error: boom at worker'' (UPLINK_ERROR ''u1'' ''boom'')
        (uplink_call ''u1'' ''db'' ''query'' [JStr ''SELECT 1''] (createUplinkClient 0))) ''u1''
       = Some (Rejected \<lparr>eo_name = ''Error'', eo_message = ''boom'',
                          eo_stack = ''Error: boom at worker''\<rparr>)"
proof -
  let ?c = "rpc_call ''c1'' ''query'' [JStr ''SELECT 1''] (createRpcClient 10000 0)"
  let ?u = "uplink_call ''u1'' ''db'' ''query'' [JStr ''SELECT 1''] (createUplinkClient 0)"
  have h: "throwing_service ''query'' [JStr ''SELECT 1''] = Inl worker_error"
    by (simp add: throwing_service_def)
  have m: "eo_message worker_error = ''boom''" by (simp add: worker_error_def)
  have p: "''c1'' \<in> rc_pending ?c \<and> rc_settled ?c ''c1'' = None"
    by (simp add: rpc_call_def createRpcClient_def)
  have q: "''u1'' \<in> up_pending ?u \<and> up_settled ?u ''u1'' = None"
    by (simp add: uplink_call_def createUplinkClient_def)
  have w: "wired [(''db'', ''db-main'')] ''db'' = Some ''db-main''
           \<and> [''db-main'' \<mapsto> JObj ''db''] ''db-main'' = Some (JObj ''db'')
           \<and> (\<lambda>v. throwing_service) (JObj ''db'') = throwing_service"
    by (simp add: wired_def)
  from error_frame_carries_message_only[where service = throwing_service and m = "''query''"
       and args = "[JStr ''SELECT 1'']" and err = worker_error, OF h,
       of "''c1''" ?c "''Error: boom at host''"
       "[(''db'', ''db-main'')]" "''db''" "''db-main''" "[''db-main'' \<mapsto> JObj ''db'']" "JObj ''db''"
       "\<lambda>v. throwing_service" ?u]
  have A: "rpc_server_on_message throwing_service (CALL ''c1'' ''query'' [JStr ''SELECT 1''])
             = [ERROR ''c1'' ''boom'']"
    and B: "rc_settled (rpc_on_message ''Error: boom at host'' (ERROR ''c1'' ''boom'') ?c) ''c1''
             = Some (Rejected \<lparr>eo_name = ''Error'', eo_message = ''boom'',
                                eo_stack = ''Error: boom at host''\<rparr>)"
    using p unfolding m by blast+
  from error_frame_carries_message_only[where service = throwing_service and m = "''query''"
       and args = "[JStr ''SELECT 1'']" and err = worker_error, OF h,
       of "''u1''" ?c "''Error: boom at worker''"
       "[(''db'', ''db-main'')]" "''db''" "''db-main''" "[''db-main'' \<mapsto> JObj ''db'']" "JObj ''db''"
       "\<lambda>v. throwing_service" ?u]
  have C: "uplink_server_on_message [''db-main'' \<mapsto> JObj ''db''] [(''db'', ''db-main'')]
        (\<lambda>v. throwing_service) (UPLINK_CALL ''u1'' ''db'' ''query'' [JStr ''SELECT 1''])
       = [UPLINK_ERROR ''u1'' ''boom'']"
    and D: "up_settled (uplink_on_message ''Error: boom at worker'' (UPLINK_ERROR ''u1'' ''boom'') ?u) ''u1''
       = Some (Rejected \<lparr>eo_name = ''Error'', eo_message = ''boom'',
                          eo_stack = ''Error: boom at worker''\<rparr>)"
    using q w unfolding m by blast+
  from h A p B w C D show ?thesis by (intro conjI) simp_all
qed


text \<open>
  The claim as stated fails: the service throws a \<^verbatim>\<open>TypeError\<close> with its own stack, the
  frame is \<^verbatim>\<open>{ type: 'ERROR', id, error: 'boom' }\<close>, and whatever stack the client
  captures, the error it rejects with is not the one thrown: the name has become
  \<^verbatim>\<open>Error\<close>.
\<close>

theorem error_name_and_stack_lost:
  "throwing_service ''query'' [] = Inl worker_error
   \<and> eo_name worker_error = ''TypeError''
   \<and> rpc_server_on_message throwing_service (CALL ''c1'' ''query'' []) = [ERROR ''c1'' ''boom'']
   \<and> rc_settled (rpc_on_message ''Error: boom at host'' (ERROR ''c1'' ''boom'')
        (rpc_call ''c1'' ''query'' [] (createRpcClient DEFAULT_RPC_TIMEOUT_MS 0))) ''c1''
       = Some (Rejected \<lparr>eo_name = ''Error'', eo_message = ''boom'',
                          eo_stack = ''Error: boom at host''\<rparr>)
   \<and> (\<forall>stk. rc_settled (rpc_on_message stk (ERROR ''c1'' ''boom'')
        (rpc_call ''c1'' ''query'' [] (createRpcClient DEFAULT_RPC_TIMEOUT_MS 0))) ''c1''
       \<noteq> Some (Rejected worker_error))"
  by (simp add: throwing_service_def worker_error_def rpc_call_def createRpcClient_def
      rc_settle_def rc_clearTimeout_def new_Error_at_def Let_def DEFAULT_RPC_TIMEOUT_MS_def)

text \<open>
  The two helpers would carry all three fields of an error with a message; they are not
  wired into any frame.
\<close>

lemma deserialize_serialize:
  "eo_message err \<noteq> [] \<Longrightarrow> deserializeError stk (serializeError err) = err"
  by (simp add: serializeError_def deserializeError_def new_Error_at_def)

section \<open>Service registration is atomic and checks the id first\<close>

text \<open>
  Claim C10. A call of \<^verbatim>\<open>registerService\<close> that fails leaves the services map as it was,
  and the duplicate check comes before the contract: under an id that is already
  registered the call fails with the duplicate-service error whatever the schema, the value
  and the \<^verbatim>\<open>validate\<close> flag are, so the schema's \<^verbatim>\<open>parse\<close> has no part in the outcome and
  no contract violation can surface.
\<close>

theorem registerService_atomic_duplicate_first:
  "(fst (registerService svcs sid sch impl validate) \<noteq> None
      \<longrightarrow> snd (registerService svcs sid sch impl validate) = svcs)
   \<and> (sid \<in> dom svcs \<longrightarrow>
        registerService svcs sid sch impl validate =
          (Some (new_Error (''Service '' @ quoted sid @ '' already registered.'')), svcs))"
  by (auto simp: registerService_def split: sum.splits)

theorem registerService_atomic_duplicate_first_witness:
  "fst (registerService [''db'' \<mapsto> JObj ''pool''] ''db'' (\<lambda>v. Inl (JsError ''ZodError'' ''bad''))
          (JObj ''other'') True) \<noteq> None
   \<and> snd (registerService [''db'' \<mapsto> JObj ''pool''] ''db'' (\<lambda>v. Inl (JsError ''ZodError'' ''bad''))
          (JObj ''other'') True) = [''db'' \<mapsto> JObj ''pool'']
   \<and> ''db'' \<in> dom [''db'' \<mapsto> JObj ''pool'']
   \<and> registerService [''db'' \<mapsto> JObj ''pool''] ''db'' (\<lambda>v. Inl (JsError ''ZodError'' ''bad''))
          (JObj ''other'') True =
        (Some (new_Error (''Service '' @ quoted ''db'' @ '' already registered.'')),
         [''db'' \<mapsto> JObj ''pool''])"
  using registerService_atomic_duplicate_first
    [of "[''db'' \<mapsto> JObj ''pool'']" "''db''" "\<lambda>v. Inl (JsError ''ZodError'' ''bad'')"
        "JObj ''other''" True]
  by simp

end
